theory Spec2Isabelle
  imports Complex_Main "HOL-Library.Log_Nat"
begin

section \<open>Data model of app.js\<close>

text \<open>
  The program keeps one mutable object \<open>STATE\<close> and one \<open>localStorage\<close> item.
  Every function below takes the current value and returns the next one. JavaScript numbers
  that the program produces are integers (ids, millisecond timestamps, fees), so they are
  modelled by \<open>int\<close>; a field that may hold \<open>null\<close> or \<open>undefined\<close> is an option.
  Field names are those of the source; a suffix is added where two objects use the same
  field name or where the name is taken in HOL (\<open>id\<close>, \<open>type\<close>, \<open>fee\<close>).
\<close>

record vehicle_t =
  number :: string
  owner :: string
  type_v :: string

record slot =
  id_s :: int
  type_s :: "string option"
  occupied :: bool
  vehicle :: "vehicle_t option"
  entryTime :: "int option"

record hist =
  vehicleNumber :: string
  owner_h :: string
  type_h :: string
  slotId :: int
  entryTime_h :: "int option"
  exitTime :: int
  durationMs :: int
  fee :: int

record fee_t =
  baseMinutes :: int
  basePrice :: int
  hourlyAfter :: int

record config_t =
  totalSlots :: int
  typesByRow :: "string list"
  fee_c :: fee_t

record state =
  slots :: "slot list"
  history :: "hist list"
  config :: config_t
  theme :: string
  timers :: "(int \<times> nat) list"

text \<open>The literal that initialises \<open>STATE\<close> (lines 2-12).\<close>

definition STATE0 :: state where
  "STATE0 = \<lparr> slots = [], history = [],
     config = \<lparr> totalSlots = 48, typesByRow = [''car'', ''bike'', ''truck''],
                fee_c = \<lparr> baseMinutes = 30, basePrice = 20, hourlyAfter = 50 \<rparr> \<rparr>,
     theme = ''dark'', timers = [] \<rparr>"

section \<open>Fee\<close>

text \<open>
  JavaScript numbers are IEEE 754 doubles, and \<open>computeFee\<close> divides, subtracts, multiplies
  and adds them. An \<open>int\<close> of the model stands for the double that holds that integer. Every
  arithmetic operation returns the double nearest to the exact result, a tie going to the
  double whose last significand bit is 0. For a positive real \<open>x\<close>, \<open>binade x\<close> is the
  exponent \<open>e\<close> with \<open>2^e \<le> x < 2^(e+1)\<close>; the doubles between these two powers are the
  multiples of \<open>2^(e-52)\<close>, so \<open>round_double x\<close> rounds \<open>x / 2^(e-52)\<close> to the nearest
  integer, ties to even, and scales back. Overflow beyond the largest double (about
  \<open>1.8e308\<close>) and the subnormal doubles (below about \<open>2.2e-308\<close>) are not modelled: a
  quotient of an integer-valued double by 60000 or 60 reaches neither, and a product or sum
  reaches the first only with numbers of more than three hundred digits.
\<close>

definition binade :: "real \<Rightarrow> int" where
  "binade x = (if 1 \<le> x then bitlen \<lfloor>x\<rfloor> - 1 else - bitlen (\<lceil>1 / x\<rceil> - 1))"

definition ties_even :: "real \<Rightarrow> int" where
  "ties_even y =
     (let f = \<lfloor>y\<rfloor>; d = y - of_int f
      in if d < 1 / 2 then f else if 1 / 2 < d then f + 1 else if even f then f else f + 1)"

definition round_double :: "real \<Rightarrow> real" where
  "round_double x =
     (if x = 0 then 0
      else let u = 2 powi (binade \<bar>x\<bar> - 52)
           in sgn x * of_int (ties_even (\<bar>x\<bar> / u)) * u)"

text \<open>\<open>Math.ceil(a / b)\<close>: the quotient is rounded to a double, which is then rounded up.\<close>

definition Math_ceil_div :: "int \<Rightarrow> int \<Rightarrow> int" where
  "Math_ceil_div a b = \<lceil>round_double (real_of_int a / real_of_int b)\<rceil>"

text \<open>
  The double returned by a subtraction, multiplication or addition of integer-valued doubles
  whose exact result is \<open>n\<close>; it is again integer-valued.
\<close>

definition js_int :: "int \<Rightarrow> int" where
  "js_int n = \<lfloor>round_double (real_of_int n)\<rfloor>"

definition computeFee :: "state \<Rightarrow> int \<Rightarrow> int" where
  "computeFee st ms =
     (let f = fee_c (config st);
          minutes = Math_ceil_div ms 60000
      in if minutes \<le> baseMinutes f then basePrice f
         else let extraMinutes = js_int (minutes - baseMinutes f);
                  extraHoursRoundedUp = Math_ceil_div extraMinutes 60
              in js_int (basePrice f + js_int (extraHoursRoundedUp * hourlyAfter f)))"

text \<open>\<open>Number.isSafeInteger\<close>: the integers that doubles hold without gaps.\<close>

definition safe :: "int \<Rightarrow> bool" where
  "safe n = (\<bar>n\<bar> < 2 ^ 53)"

text \<open>The rule of the specification, written with the ceiling of real numbers.\<close>

definition computeFee_spec :: "fee_t \<Rightarrow> int \<Rightarrow> int" where
  "computeFee_spec f ms =
     (let minutes = \<lceil>real_of_int ms / 60000\<rceil>
      in if minutes \<le> baseMinutes f then basePrice f
         else basePrice f + \<lceil>real_of_int (minutes - baseMinutes f) / 60\<rceil> * hourlyAfter f)"

section \<open>Persistence\<close>

text \<open>
  \<open>localStorage\<close> holds at most one item under the key \<open>parkingData\<close>. The model keeps
  what \<open>JSON.parse\<close> makes of its text: the text is empty, or does not parse, or parses to
  \<open>null\<close>, to a value that is not an object, or to an object. An object is described by
  the fields that \<open>load\<close> and \<open>save\<close> touch, each one present or absent; a present field
  holds a value of the shape that \<open>save\<close> writes. The values the program stores are
  integers, strings, booleans, \<open>null\<close>, arrays and plain objects, which \<open>JSON.stringify\<close>
  followed by \<open>JSON.parse\<close> gives back as they were; so what \<open>save\<close> writes is kept as the
  object it parses to.
\<close>

record snapshot =
  p_slots :: "slot list option"
  p_history :: "hist list option"
  p_config :: "config_t option"
  p_theme :: "string option"
  p_timers :: "(int \<times> nat) list option"

datatype parsed = JNull | JOther | JObject snapshot

datatype stored = EmptyText | BadText | JsonText parsed

datatype js_error = SyntaxError | TypeError

record world =
  STATE :: state
  localStorage :: "stored option"

definition no_fields :: snapshot where
  "no_fields = \<lparr> p_slots = None, p_history = None, p_config = None, p_theme = None,
                 p_timers = None \<rparr>"

text \<open>\<open>localStorage.getItem('parkingData') || '{}'\<close>: a missing item and the empty string are falsy.\<close>

definition getItem_or_braces :: "stored option \<Rightarrow> stored" where
  "getItem_or_braces item =
     (case item of
        None \<Rightarrow> JsonText (JObject no_fields)
      | Some EmptyText \<Rightarrow> JsonText (JObject no_fields)
      | Some t \<Rightarrow> t)"

fun JSON_parse :: "stored \<Rightarrow> js_error + parsed" where
  "JSON_parse EmptyText = Inl SyntaxError"
| "JSON_parse BadText = Inl SyntaxError"
| "JSON_parse (JsonText p) = Inr p"

text \<open>\<open>Object.assign(STATE, data, { timers: {} })\<close>: the fields present in \<open>data\<close> overwrite.\<close>

definition assign :: "state \<Rightarrow> snapshot \<Rightarrow> state" where
  "assign st data =
     \<lparr> slots = (case p_slots data of None \<Rightarrow> slots st | Some v \<Rightarrow> v),
       history = (case p_history data of None \<Rightarrow> history st | Some v \<Rightarrow> v),
       config = (case p_config data of None \<Rightarrow> config st | Some v \<Rightarrow> v),
       theme = (case p_theme data of None \<Rightarrow> theme st | Some v \<Rightarrow> v),
       timers = [] \<rparr>"

text \<open>The body of the \<open>try\<close> block of \<open>load\<close>; reading a property of \<open>null\<close> throws.\<close>

definition load_try :: "world \<Rightarrow> js_error + state" where
  "load_try w =
     (case JSON_parse (getItem_or_braces (localStorage w)) of
        Inl e \<Rightarrow> Inl e
      | Inr JNull \<Rightarrow> Inl TypeError
      | Inr JOther \<Rightarrow> Inr (STATE w)
      | Inr (JObject data) \<Rightarrow>
          (if p_slots data \<noteq> None \<and> p_history data \<noteq> None
           then Inr (assign (STATE w) data) else Inr (STATE w)))"

text \<open>\<open>load\<close>: the \<open>catch {}\<close> swallows every error and leaves \<open>STATE\<close> as it was.\<close>

definition load :: "world \<Rightarrow> world" where
  "load w = (case load_try w of Inl e \<Rightarrow> w | Inr st \<Rightarrow> w\<lparr>STATE := st\<rparr>)"

text \<open>\<open>save\<close>: every field of \<open>STATE\<close> except \<open>timers\<close> is written.\<close>

definition persist :: "state \<Rightarrow> snapshot" where
  "persist st = \<lparr> p_slots = Some (slots st), p_history = Some (history st),
                  p_config = Some (config st), p_theme = Some (theme st), p_timers = None \<rparr>"

definition save :: "world \<Rightarrow> world" where
  "save w = w\<lparr>localStorage := Some (JsonText (JObject (persist (STATE w))))\<rparr>"

section \<open>Slots\<close>

text \<open>\<open>STATE.config.typesByRow[i % STATE.config.typesByRow.length]\<close>; with an empty list
  the index is \<open>NaN\<close> and the element is \<open>undefined\<close>.\<close>

definition rowType :: "config_t \<Rightarrow> int \<Rightarrow> string option" where
  "rowType c i =
     (if typesByRow c = [] then None
      else Some (typesByRow c ! nat (i mod int (length (typesByRow c)))))"

definition newSlot :: "config_t \<Rightarrow> int \<Rightarrow> slot" where
  "newSlot c i = \<lparr> id_s = i, type_s = rowType c i, occupied = False, vehicle = None,
                   entryTime = None \<rparr>"

text \<open>The \<open>for\<close> loop of \<open>initSlots\<close>, from the current value of \<open>i\<close>.\<close>

function initSlots_loop :: "int \<Rightarrow> state \<Rightarrow> state" where
  "initSlots_loop i st =
     (if i \<le> totalSlots (config st)
      then initSlots_loop (i + 1) (st\<lparr>slots := slots st @ [newSlot (config st) i]\<rparr>)
      else st)"
  by pat_completeness auto
termination
  by (relation "measure (\<lambda>(i, st). nat (totalSlots (config st) + 1 - i))") auto

declare initSlots_loop.simps [simp del]

definition initSlots :: "state \<Rightarrow> state" where
  "initSlots st = (if slots st \<noteq> [] then st else initSlots_loop 1 st)"

text \<open>
  A reference to one of the objects of \<open>STATE.slots\<close> is modelled by its position in the
  array: the array is only ever replaced as a whole, never reordered. \<open>find_pos\<close> is
  \<open>Array.prototype.find\<close>, returning the position of the first element that satisfies the
  predicate.
\<close>

fun find_pos :: "('a \<Rightarrow> bool) \<Rightarrow> 'a list \<Rightarrow> nat option" where
  "find_pos P [] = None"
| "find_pos P (x # xs) = (if P x then Some 0 else map_option Suc (find_pos P xs))"

text \<open>\<open>nearestEmptySlot\<close>; \<open>sort\<close> with the comparator \<open>a.id - b.id\<close> is the stable sort by id.\<close>

definition nearestEmptySlot :: "state \<Rightarrow> string \<Rightarrow> nat option" where
  "nearestEmptySlot st ty =
     (let refs = [0..<length (slots st)];
          sameType = filter (\<lambda>r. \<not> occupied (slots st ! r) \<and> type_s (slots st ! r) = Some ty) refs;
          anyType = filter (\<lambda>r. \<not> occupied (slots st ! r)) refs;
          pool = (if sameType \<noteq> [] then sameType else anyType)
      in if pool = [] then None
         else Some (hd (sort_key (\<lambda>r. id_s (slots st ! r)) pool)))"

section \<open>Entry and exit\<close>

text \<open>
  What the user is shown. The text of a success toast interpolates values and is not kept.
\<close>

datatype ui =
  ToastError string | ToastSuccess | Modal string | Confirm string | Navigate string
  | Invoice hist

text \<open>
  The submit handler of the entry form from line 291 on, for field values that passed the
  validation above it: \<open>number\<close>, \<open>owner\<close> and \<open>ty\<close> are the validated inputs and \<open>now\<close> is
  \<open>Date.now()\<close>.
\<close>

definition entrySubmit :: "world \<Rightarrow> string \<Rightarrow> string \<Rightarrow> string \<Rightarrow> int \<Rightarrow> ui list \<times> world" where
  "entrySubmit w num own ty now =
     (case nearestEmptySlot (STATE w) ty of
        None \<Rightarrow> ([ToastError ''No empty slot available''], w)
      | Some r \<Rightarrow>
          let st = STATE w;
              s = (slots st ! r)\<lparr> occupied := True,
                     vehicle := Some \<lparr> number = num, owner = own, type_v = ty \<rparr>,
                     entryTime := Some now \<rparr>
          in ([Modal ''Vehicle parked'', ToastSuccess],
              save (w\<lparr>STATE := st\<lparr>slots := (slots st)[r := s]\<rparr>\<rparr>)))"

text \<open>\<open>delete STATE.timers[slotId]\<close>, done when the entry is truthy.\<close>

definition clearTimer :: "(int \<times> nat) list \<Rightarrow> int \<Rightarrow> (int \<times> nat) list" where
  "clearTimer ts k =
     (case map_of ts k of
        None \<Rightarrow> ts
      | Some h \<Rightarrow> if h = 0 then ts else filter (\<lambda>kv. fst kv \<noteq> k) ts)"

text \<open>
  \<open>removeVehicleFlow\<close>. \<open>now\<close> is \<open>Date.now()\<close> and \<open>confirmed\<close> tells whether the user presses
  Confirm in the dialog (the callback then runs) or dismisses it. \<open>now - s.entryTime\<close> reads
  \<open>null\<close> as 0, and \<open>s.vehicle.number\<close> throws when the vehicle is \<open>null\<close>. The re-rendering
  of the dashboard after the removal only touches the page and the display timers; it is
  represented by the \<open>Navigate\<close> notice.
\<close>

definition removeVehicleFlow :: "world \<Rightarrow> int \<Rightarrow> int \<Rightarrow> bool \<Rightarrow> js_error + (ui list \<times> world)" where
  "removeVehicleFlow w slot_id now confirmed =
     (let st = STATE w in
      case find_pos (\<lambda>x. id_s x = slot_id) (slots st) of
        None \<Rightarrow> Inr ([], w)
      | Some r \<Rightarrow>
          let s = slots st ! r in
          if \<not> occupied s then Inr ([], w)
          else
            let duration = now - (case entryTime s of None \<Rightarrow> 0 | Some t \<Rightarrow> t);
                fee_due = computeFee st duration
            in (case vehicle s of
                 None \<Rightarrow> Inl TypeError
               | Some v \<Rightarrow>
                   if \<not> confirmed then Inr ([Confirm ''Remove vehicle?''], w)
                   else
                     let h = \<lparr> vehicleNumber = number v, owner_h = owner v, type_h = type_v v,
                               slotId = id_s s, entryTime_h = entryTime s, exitTime = now,
                               durationMs = duration, fee = fee_due \<rparr>;
                         freed = s\<lparr> occupied := False, vehicle := None, entryTime := None \<rparr>;
                         st' = st\<lparr> slots := list_update (slots st) r freed,
                                   history := h # history st,
                                   timers := clearTimer (timers st) slot_id \<rparr>
                     in Inr ([Confirm ''Remove vehicle?'', Navigate ''/dashboard'', ToastSuccess,
                              Invoice h],
                             save (w\<lparr>STATE := st'\<rparr>))))"

text \<open>The confirmed callback of the reset button (lines 129-132).\<close>

definition resetData :: "world \<Rightarrow> world" where
  "resetData w =
     \<lparr> STATE = initSlots ((STATE w)\<lparr>slots := [], history := []\<rparr>), localStorage = None \<rparr>"

text \<open>\<open>boot\<close> on a fresh page: \<open>STATE\<close> is the literal, the storage is what an earlier visit left.\<close>

definition boot :: "stored option \<Rightarrow> world" where
  "boot item =
     (let w = load \<lparr> STATE = STATE0, localStorage = item \<rparr>
      in w\<lparr>STATE := initSlots (STATE w)\<rparr>)"

text \<open>
  The click handler of the theme button: a dark page turns light; a light page is reloaded,
  which boots it again on what is stored.
\<close>

definition toggleTheme :: "world \<Rightarrow> world" where
  "toggleTheme w =
     (if theme (STATE w) = ''dark'' then w\<lparr>STATE := (STATE w)\<lparr>theme := ''light''\<rparr>\<rparr>
      else boot (localStorage w))"

section \<open>Analytics\<close>

record bucket =
  label :: string
  value_b :: int

text \<open>
  \<open>revenueByDay\<close>. The calendar is the platform's: \<open>dayStart i\<close> is the time value of \<open>d\<close>
  after \<open>d = new Date(); d.setDate(d.getDate()-i); d.setHours(0,0,0,0)\<close>, that is local
  midnight at the start of the calendar day \<open>i\<close> days before today, and \<open>dayLabel i\<close> is the
  text \<open>month/day\<close> of that date. The loop counts \<open>i\<close> down from \<open>days - 1\<close> to 0 and pushes
  one bucket each time.
\<close>

function revenueByDay_loop ::
  "(int \<Rightarrow> int) \<Rightarrow> (int \<Rightarrow> string) \<Rightarrow> state \<Rightarrow> int \<Rightarrow> bucket list \<Rightarrow> bucket list" where
  "revenueByDay_loop dayStart dayLabel st i acc =
     (if i \<ge> 0 then
        let start = dayStart i;
            end_ms = start + 86400000 - 1;
            revenue = foldl (\<lambda>sum h. sum + fee h) 0
                        (filter (\<lambda>h. exitTime h \<ge> start \<and> exitTime h \<le> end_ms) (history st))
        in revenueByDay_loop dayStart dayLabel st (i - 1)
             (acc @ [\<lparr> label = dayLabel i, value_b = revenue \<rparr>])
      else acc)"
  by pat_completeness auto
termination
  by (relation "measure (\<lambda>(dayStart, dayLabel, st, i, acc). nat (i + 1))") auto

declare revenueByDay_loop.simps [simp del]

definition revenueByDay :: "(int \<Rightarrow> int) \<Rightarrow> (int \<Rightarrow> string) \<Rightarrow> state \<Rightarrow> int \<Rightarrow> bucket list" where
  "revenueByDay dayStart dayLabel st days = revenueByDay_loop dayStart dayLabel st (days - 1) []"

text \<open>
  The fees of the records that leave between two instants, both included: what a bucket
  should hold for the calendar day that starts at \<open>lo\<close> and ends at \<open>hi\<close>.
\<close>

definition feesBetween :: "state \<Rightarrow> int \<Rightarrow> int \<Rightarrow> int" where
  "feesBetween st lo hi =
     sum_list (map fee (filter (\<lambda>h. lo \<le> exitTime h \<and> exitTime h \<le> hi) (history st)))"

section \<open>Runs of the program\<close>

text \<open>
  The worlds the program can be in: a first visit with nothing stored, then any sequence of
  page loads, entries, removals, resets, theme changes, and calls of \<open>load\<close> and \<open>save\<close>.
  The dashboard registers and replaces display timers when it is drawn; the last rule lets
  the timers take any value.
\<close>

inductive reachable :: "world \<Rightarrow> bool" where
  first_visit: "reachable (boot None)"
| reload: "reachable w \<Longrightarrow> reachable (boot (localStorage w))"
| entry: "reachable w \<Longrightarrow> reachable (snd (entrySubmit w num own ty now))"
| removal: "reachable w \<Longrightarrow> removeVehicleFlow w k now c = Inr (u, w') \<Longrightarrow> reachable w'"
| reset: "reachable w \<Longrightarrow> reachable (resetData w)"
| loaded: "reachable w \<Longrightarrow> reachable (load w)"
| saved: "reachable w \<Longrightarrow> reachable (save w)"
| themed: "reachable w \<Longrightarrow> reachable (toggleTheme w)"
| timed: "reachable w \<Longrightarrow> reachable (w\<lparr>STATE := (STATE w)\<lparr>timers := ts\<rparr>\<rparr>)"

text \<open>The invariant of a slot: it is occupied exactly when it carries a vehicle and an entry time.\<close>

definition session_inv :: "slot \<Rightarrow> bool" where
  "session_inv s = ((occupied s = (vehicle s \<noteq> None)) \<and> (occupied s = (entryTime s \<noteq> None)))"

text \<open>
  What holds of every world the program reaches: the configuration is the initial one, the
  slots carry the ids and categories they were created with and satisfy the invariant, and
  the storage is empty or holds a snapshot of such a registry.
\<close>

definition registry_ok :: "config_t \<Rightarrow> slot list \<Rightarrow> bool" where
  "registry_ok c ss =
     (c = config STATE0
      \<and> map id_s ss = [1..totalSlots c]
      \<and> map type_s ss = map (rowType c) [1..totalSlots c]
      \<and> list_all session_inv ss)"

definition store_ok :: "stored option \<Rightarrow> bool" where
  "store_ok item =
     (case item of
        None \<Rightarrow> True
      | Some (JsonText (JObject d)) \<Rightarrow>
          (case (p_slots d, p_history d, p_config d) of
             (Some ss, Some hs, Some c) \<Rightarrow> registry_ok c ss
           | _ \<Rightarrow> False)
      | Some _ \<Rightarrow> False)"

definition world_ok :: "world \<Rightarrow> bool" where
  "world_ok w = (registry_ok (config (STATE w)) (slots (STATE w)) \<and> store_ok (localStorage w))"

section \<open>Sample worlds\<close>

text \<open>
  A lot of three slots with the middle one taken, a lot whose only slot is taken, and a
  ledger with one removal made late on a day of twenty-five hours: 2 November 2025 in New
  York, which starts at 04:00 UTC and ends when 3 November starts at 05:00 UTC. The calendar
  is the one a browser in New York has on 3 November 2025; its labels are given for
  today and yesterday, the two days that a query over two days consults. They serve as
  concrete inputs below.
\<close>

definition lot3 :: world where
  "lot3 = \<lparr> STATE = \<lparr> slots =
        [\<lparr> id_s = 1, type_s = Some ''bike'', occupied = False, vehicle = None, entryTime = None \<rparr>,
         \<lparr> id_s = 2, type_s = Some ''truck'', occupied = True,
           vehicle = Some \<lparr> number = ''TN 38 AB 1234'', owner = ''Priya'', type_v = ''truck'' \<rparr>,
           entryTime = Some 1000 \<rparr>,
         \<lparr> id_s = 3, type_s = Some ''car'', occupied = False, vehicle = None, entryTime = None \<rparr>],
      history = [], config = config STATE0, theme = ''dark'', timers = [] \<rparr>,
    localStorage = None \<rparr>"

definition lot_full :: world where
  "lot_full = \<lparr> STATE = \<lparr> slots =
        [\<lparr> id_s = 1, type_s = Some ''car'', occupied = True,
           vehicle = Some \<lparr> number = ''KA 01 C 123'', owner = ''Ravi'', type_v = ''car'' \<rparr>,
           entryTime = Some 1000 \<rparr>],
      history = [], config = config STATE0, theme = ''dark'', timers = [] \<rparr>,
    localStorage = None \<rparr>"

definition dayStart_NY :: "int \<Rightarrow> int" where
  "dayStart_NY i = (if i = 0 then 1762146000000 else 1762056000000 - (i - 1) * 86400000)"

definition dayLabel_NY :: "int \<Rightarrow> string" where
  "dayLabel_NY i = (if i = 0 then ''11/3'' else if i = 1 then ''11/2'' else [])"

definition ledger_NY :: state where
  "ledger_NY = STATE0 \<lparr> history :=
      [\<lparr> vehicleNumber = ''NY 01 AB 123'', owner_h = ''Sam'', type_h = ''car'', slotId = 3,
         entryTime_h = Some 1762143600000, exitTime = 1762144200000, durationMs = 600000,
         fee = 20 \<rparr>] \<rparr>"

text \<open>An outcome signals an error when it is a thrown exception or shows an error toast.\<close>

fun is_error_toast :: "ui \<Rightarrow> bool" where
  "is_error_toast (ToastError m) = True"
| "is_error_toast _ = False"

fun signals_error :: "js_error + (ui list \<times> world) \<Rightarrow> bool" where
  "signals_error (Inl e) = True"
| "signals_error (Inr (u, w)) = list_ex is_error_toast u"

section \<open>Auxiliary facts\<close>

lemma initSlots_loop_eq:
  "initSlots_loop i st = st\<lparr>slots := slots st @ map (newSlot (config st)) [i..totalSlots (config st)]\<rparr>"
proof (induction i st rule: initSlots_loop.induct)
  case (1 i st)
  show ?case
  proof (cases "i \<le> totalSlots (config st)")
    case True
    have up: "[i..totalSlots (config st)] = i # [i + 1..totalSlots (config st)]"
      using True by (simp add: upto_rec1)
    have "initSlots_loop i st
            = initSlots_loop (i + 1) (st\<lparr>slots := slots st @ [newSlot (config st) i]\<rparr>)"
      using True by (subst initSlots_loop.simps) simp
    also have "\<dots> = st\<lparr>slots := slots st @ map (newSlot (config st)) [i..totalSlots (config st)]\<rparr>"
      using "1.IH" [OF True] by (simp add: up)
    finally show ?thesis .
  next
    case False
    then show ?thesis by (subst initSlots_loop.simps) simp
  qed
qed

lemma slots_initSlots:
  "slots st = [] \<Longrightarrow> slots (initSlots st) = map (newSlot (config st)) [1..totalSlots (config st)]"
  by (simp add: initSlots_def initSlots_loop_eq)

lemma initSlots_other:
  "history (initSlots st) = history st" "config (initSlots st) = config st"
  "theme (initSlots st) = theme st" "timers (initSlots st) = timers st"
  by (simp_all add: initSlots_def initSlots_loop_eq)

lemma hd_sort_key_min:
  assumes "xs \<noteq> []"
  shows "hd (sort_key f xs) \<in> set xs \<and> (\<forall>y\<in>set xs. f (hd (sort_key f xs)) \<le> f y)"
proof -
  let ?ys = "sort_key f xs"
  from assms have ne: "?ys \<noteq> []" by (metis length_sort length_0_conv)
  then obtain z zs where ys: "?ys = z # zs" by (cases ?ys) auto
  have "sorted (map f ?ys)" by (rule sorted_sort_key)
  with ys have "\<forall>y\<in>set zs. f z \<le> f y" by simp
  moreover have "set ?ys = set xs" by simp
  ultimately show ?thesis using ys by (metis list.sel(1) list.set_intros(1) order_refl set_ConsD)
qed

lemma find_pos_None: "find_pos P xs = None \<longleftrightarrow> (\<forall>x\<in>set xs. \<not> P x)"
  by (induction xs) auto

lemma find_pos_Some:
  "find_pos P xs = Some r \<Longrightarrow> r < length xs \<and> P (xs ! r) \<and> (\<forall>j<r. \<not> P (xs ! j))"
proof (induction xs arbitrary: r)
  case Nil
  then show ?case by simp
next
  case (Cons x xs)
  show ?case
  proof (cases "P x")
    case True
    with Cons.prems show ?thesis by simp
  next
    case False
    with Cons.prems obtain r' where r': "find_pos P xs = Some r'" "r = Suc r'" by auto
    from Cons.IH [OF r'(1)] have ih: "r' < length xs" "P (xs ! r')" "\<forall>j<r'. \<not> P (xs ! j)"
      by simp_all
    have "\<not> P ((x # xs) ! j)" if "j < r" for j
    proof (cases j)
      case 0
      with False show ?thesis by simp
    next
      case (Suc j')
      with that r'(2) have "j' < r'" by simp
      with ih(3) Suc show ?thesis by simp
    qed
    with ih r'(2) show ?thesis by simp
  qed
qed

lemma find_pos_distinct:
  "distinct (map f xs) \<Longrightarrow> r < length xs \<Longrightarrow> find_pos (\<lambda>x. f x = f (xs ! r)) xs = Some r"
proof (induction xs arbitrary: r)
  case Nil
  then show ?case by simp
next
  case (Cons x xs)
  show ?case
  proof (cases r)
    case 0
    then show ?thesis by simp
  next
    case (Suc r')
    with Cons.prems have lt: "r' < length xs" by simp
    then have "f (xs ! r') \<in> f ` set xs" by simp
    with Cons.prems have ne: "f x \<noteq> f (xs ! r')" by auto
    from Cons.prems have "distinct (map f xs)" by simp
    from Cons.IH [OF this lt] have "find_pos (\<lambda>x. f x = f (xs ! r')) xs = Some r'" .
    with ne Suc show ?thesis by simp
  qed
qed

lemma hd_sort_key_pool:
  assumes "pool \<noteq> []" and "set pool = {r. r < n \<and> Q r}"
  shows "hd (sort_key f pool) < n \<and> Q (hd (sort_key f pool))
         \<and> (\<forall>q<n. Q q \<longrightarrow> f (hd (sort_key f pool)) \<le> f q)"
  using hd_sort_key_min [OF assms(1), of f] assms(2) by auto

lemma nearestEmptySlot_sameType:
  assumes "\<exists>q<length (slots st). \<not> occupied (slots st ! q) \<and> type_s (slots st ! q) = Some ty"
  shows "\<exists>r. nearestEmptySlot st ty = Some r \<and> r < length (slots st)
           \<and> \<not> occupied (slots st ! r) \<and> type_s (slots st ! r) = Some ty
           \<and> (\<forall>q<length (slots st). \<not> occupied (slots st ! q) \<and> type_s (slots st ! q) = Some ty
                  \<longrightarrow> id_s (slots st ! r) \<le> id_s (slots st ! q))"
proof -
  let ?Q = "\<lambda>r. \<not> occupied (slots st ! r) \<and> type_s (slots st ! r) = Some ty"
  let ?pool = "filter ?Q [0..<length (slots st)]"
  have set: "set ?pool = {r. r < length (slots st) \<and> ?Q r}" by auto
  from assms have ne: "?pool \<noteq> []" by (auto simp: filter_empty_conv)
  have res: "nearestEmptySlot st ty = Some (hd (sort_key (\<lambda>r. id_s (slots st ! r)) ?pool))"
    using ne by (simp add: nearestEmptySlot_def Let_def)
  from hd_sort_key_pool [OF ne set, of "\<lambda>r. id_s (slots st ! r)"] res
  show ?thesis by blast
qed

lemma nearestEmptySlot_anyType:
  assumes "\<not> (\<exists>q<length (slots st). \<not> occupied (slots st ! q) \<and> type_s (slots st ! q) = Some ty)"
    and "\<exists>q<length (slots st). \<not> occupied (slots st ! q)"
  shows "\<exists>r. nearestEmptySlot st ty = Some r \<and> r < length (slots st)
           \<and> \<not> occupied (slots st ! r)
           \<and> (\<forall>q<length (slots st). \<not> occupied (slots st ! q)
                  \<longrightarrow> id_s (slots st ! r) \<le> id_s (slots st ! q))"
proof -
  let ?P = "\<lambda>r. \<not> occupied (slots st ! r) \<and> type_s (slots st ! r) = Some ty"
  let ?Q = "\<lambda>r. \<not> occupied (slots st ! r)"
  let ?pool = "filter ?Q [0..<length (slots st)]"
  have set: "set ?pool = {r. r < length (slots st) \<and> ?Q r}" by auto
  from assms(1) have same: "filter ?P [0..<length (slots st)] = []"
    by (auto simp: filter_empty_conv)
  from assms(2) have ne: "?pool \<noteq> []" by (auto simp: filter_empty_conv)
  have res: "nearestEmptySlot st ty = Some (hd (sort_key (\<lambda>r. id_s (slots st ! r)) ?pool))"
    using ne same by (simp add: nearestEmptySlot_def Let_def)
  from hd_sort_key_pool [OF ne set, of "\<lambda>r. id_s (slots st ! r)"] res
  show ?thesis by blast
qed

lemma nearestEmptySlot_full:
  assumes "\<forall>q<length (slots st). occupied (slots st ! q)"
  shows "nearestEmptySlot st ty = None"
proof -
  from assms have "filter (\<lambda>r. \<not> occupied (slots st ! r)) [0..<length (slots st)] = []"
    by (auto simp: filter_empty_conv)
  moreover from assms
  have "filter (\<lambda>r. \<not> occupied (slots st ! r) \<and> type_s (slots st ! r) = Some ty)
          [0..<length (slots st)] = []"
    by (auto simp: filter_empty_conv)
  ultimately show ?thesis by (simp add: nearestEmptySlot_def Let_def)
qed

lemma nearestEmptySlot_Some:
  assumes "nearestEmptySlot st ty = Some r"
  shows "r < length (slots st) \<and> \<not> occupied (slots st ! r)"
proof (cases "\<exists>q<length (slots st). \<not> occupied (slots st ! q) \<and> type_s (slots st ! q) = Some ty")
  case True
  from nearestEmptySlot_sameType [OF True] assms show ?thesis by auto
next
  case False
  show ?thesis
  proof (cases "\<exists>q<length (slots st). \<not> occupied (slots st ! q)")
    case True
    from nearestEmptySlot_anyType [OF False True] assms show ?thesis by auto
  next
    case False
    then have "nearestEmptySlot st ty = None" by (intro nearestEmptySlot_full) simp
    with assms show ?thesis by simp
  qed
qed

lemma entrySubmit_None:
  "nearestEmptySlot (STATE w) ty = None \<Longrightarrow>
     entrySubmit w num own ty now = ([ToastError ''No empty slot available''], w)"
  by (simp add: entrySubmit_def)

lemma entrySubmit_Some:
  "nearestEmptySlot (STATE w) ty = Some r \<Longrightarrow>
     entrySubmit w num own ty now =
       ([Modal ''Vehicle parked'', ToastSuccess],
        save (w\<lparr>STATE := (STATE w)\<lparr>slots := (slots (STATE w))
           [r := (slots (STATE w) ! r)\<lparr> occupied := True,
                     vehicle := Some \<lparr> number = num, owner = own, type_v = ty \<rparr>,
                     entryTime := Some now \<rparr>]\<rparr>\<rparr>))"
  by (simp add: entrySubmit_def Let_def)

lemma STATE_save [simp]: "STATE (save w) = STATE w"
  by (simp add: save_def)

lemma localStorage_save [simp]:
  "localStorage (save w) = Some (JsonText (JObject (persist (STATE w))))"
  by (simp add: save_def)

lemma list_all_update:
  "list_all P xs \<Longrightarrow> P y \<Longrightarrow> list_all P (xs[r := y])"
  by (induction xs arbitrary: r) (auto split: nat.splits)

lemma map_update_same:
  "f y = f (xs ! r) \<Longrightarrow> map f (xs[r := y]) = map f xs"
  by (induction xs arbitrary: r) (auto split: nat.splits)

lemma registry_ok_update:
  assumes "registry_ok c ss" and "id_s s' = id_s (ss ! r)" and "type_s s' = type_s (ss ! r)"
    and "session_inv s'"
  shows "registry_ok c (ss[r := s'])"
proof -
  have "map id_s (ss[r := s']) = map id_s ss"
    using assms(2) by (rule map_update_same)
  moreover have "map type_s (ss[r := s']) = map type_s ss"
    using assms(3) by (rule map_update_same)
  moreover have "list_all session_inv (ss[r := s'])"
    using assms(1,4) by (simp add: registry_ok_def list_all_update)
  ultimately show ?thesis using assms(1) by (simp add: registry_ok_def)
qed

lemma registry_ok_init:
  "config st = config STATE0 \<Longrightarrow> slots st = [] \<Longrightarrow>
     registry_ok (config (initSlots st)) (slots (initSlots st))"
  by (simp add: registry_ok_def slots_initSlots initSlots_other list_all_iff newSlot_def
      session_inv_def comp_def)

lemma registry_ok_nonempty: "registry_ok c ss \<Longrightarrow> ss \<noteq> []"
  by (auto simp: registry_ok_def STATE0_def upto_rec1)

lemma world_ok_first: "world_ok (boot None)"
proof -
  have "load \<lparr> STATE = STATE0, localStorage = None \<rparr> = \<lparr> STATE = STATE0, localStorage = None \<rparr>"
    by (simp add: load_def load_try_def getItem_or_braces_def no_fields_def)
  moreover have "registry_ok (config (initSlots STATE0)) (slots (initSlots STATE0))"
    by (rule registry_ok_init) (simp_all add: STATE0_def)
  ultimately show ?thesis
    by (simp add: boot_def world_ok_def store_ok_def)
qed

lemma store_ok_cases:
  assumes "store_ok item"
  obtains "item = None"
  | d ss hs c where "item = Some (JsonText (JObject d))" "p_slots d = Some ss"
      "p_history d = Some hs" "p_config d = Some c" "registry_ok c ss"
  using assms
  by (auto simp: store_ok_def split: option.splits stored.splits parsed.splits)

lemma load_None:
  "localStorage w = None \<Longrightarrow> load w = w"
  by (simp add: load_def load_try_def getItem_or_braces_def no_fields_def)

lemma load_object:
  "localStorage w = Some (JsonText (JObject d)) \<Longrightarrow> p_slots d = Some ss \<Longrightarrow>
   p_history d = Some hs \<Longrightarrow> load w = w\<lparr>STATE := assign (STATE w) d\<rparr>"
  by (simp add: load_def load_try_def getItem_or_braces_def)

lemma world_ok_load: "world_ok w \<Longrightarrow> world_ok (load w)"
proof -
  assume ok: "world_ok w"
  then have "store_ok (localStorage w)" by (simp add: world_ok_def)
  then show ?thesis
  proof (cases rule: store_ok_cases)
    case 1
    with ok show ?thesis by (simp add: load_None)
  next
    case (2 d ss hs c)
    from load_object [OF 2(1,2,3)] 2 ok show ?thesis
      by (simp add: world_ok_def assign_def)
  qed
qed

lemma world_ok_boot: "store_ok item \<Longrightarrow> world_ok (boot item)"
proof -
  assume "store_ok item"
  then show ?thesis
  proof (cases rule: store_ok_cases)
    case 1
    then show ?thesis using world_ok_first by simp
  next
    case (2 d ss hs c)
    let ?w = "\<lparr> STATE = STATE0, localStorage = item \<rparr>"
    have ld: "load ?w = ?w\<lparr>STATE := assign STATE0 d\<rparr>"
      using load_object [of ?w d ss hs] 2 by simp
    have sl: "slots (assign STATE0 d) = ss" "config (assign STATE0 d) = c"
      using 2 by (simp_all add: assign_def)
    from registry_ok_nonempty [OF 2(5)] sl have "initSlots (assign STATE0 d) = assign STATE0 d"
      by (simp add: initSlots_def)
    with ld sl 2 \<open>store_ok item\<close> show ?thesis
      by (simp add: boot_def world_ok_def)
  qed
qed

lemma world_ok_save: "world_ok w \<Longrightarrow> world_ok (save w)"
  by (simp add: world_ok_def store_ok_def persist_def)

lemma world_ok_save_state:
  "registry_ok (config st) (slots st) \<Longrightarrow> world_ok (save (w\<lparr>STATE := st\<rparr>))"
  by (simp add: world_ok_def store_ok_def persist_def)

lemma world_ok_reset: "world_ok w \<Longrightarrow> world_ok (resetData w)"
proof -
  assume "world_ok w"
  then have c: "config (STATE w) = config STATE0" by (simp add: world_ok_def registry_ok_def)
  let ?st = "(STATE w)\<lparr>slots := [], history := []\<rparr>"
  have "registry_ok (config (initSlots ?st)) (slots (initSlots ?st))"
    by (rule registry_ok_init) (simp_all add: c)
  then show ?thesis by (simp add: resetData_def world_ok_def store_ok_def)
qed

lemma world_ok_entry: "world_ok w \<Longrightarrow> world_ok (snd (entrySubmit w num own ty now))"
proof (cases "nearestEmptySlot (STATE w) ty")
  case None
  assume "world_ok w"
  with None show ?thesis by (simp add: entrySubmit_None)
next
  case (Some r)
  assume "world_ok w"
  then have reg: "registry_ok (config (STATE w)) (slots (STATE w))" by (simp add: world_ok_def)
  let ?s = "(slots (STATE w) ! r)\<lparr> occupied := True,
                     vehicle := Some \<lparr> number = num, owner = own, type_v = ty \<rparr>,
                     entryTime := Some now \<rparr>"
  have "registry_ok (config (STATE w)) ((slots (STATE w))[r := ?s])"
    by (rule registry_ok_update [OF reg]) (simp_all add: session_inv_def)
  then show ?thesis
    by (simp add: entrySubmit_Some [OF Some] world_ok_save_state)
qed

lemma removeVehicleFlow_unknown:
  "find_pos (\<lambda>x. id_s x = k) (slots (STATE w)) = None \<Longrightarrow>
     removeVehicleFlow w k now c = Inr ([], w)"
  by (simp add: removeVehicleFlow_def)

lemma removeVehicleFlow_empty:
  "find_pos (\<lambda>x. id_s x = k) (slots (STATE w)) = Some r \<Longrightarrow> \<not> occupied (slots (STATE w) ! r) \<Longrightarrow>
     removeVehicleFlow w k now c = Inr ([], w)"
  by (simp add: removeVehicleFlow_def)

lemma removeVehicleFlow_cancel:
  "find_pos (\<lambda>x. id_s x = k) (slots (STATE w)) = Some r \<Longrightarrow> occupied (slots (STATE w) ! r) \<Longrightarrow>
   vehicle (slots (STATE w) ! r) = Some v \<Longrightarrow>
     removeVehicleFlow w k now False = Inr ([Confirm ''Remove vehicle?''], w)"
  by (simp add: removeVehicleFlow_def Let_def)

lemma removeVehicleFlow_confirm:
  assumes "find_pos (\<lambda>x. id_s x = k) (slots (STATE w)) = Some r"
    and "occupied (slots (STATE w) ! r)"
    and "vehicle (slots (STATE w) ! r) = Some v"
  shows "removeVehicleFlow w k now True =
     Inr ([Confirm ''Remove vehicle?'', Navigate ''/dashboard'', ToastSuccess,
           Invoice \<lparr> vehicleNumber = number v, owner_h = owner v, type_h = type_v v,
                     slotId = id_s (slots (STATE w) ! r),
                     entryTime_h = entryTime (slots (STATE w) ! r), exitTime = now,
                     durationMs = now - (case entryTime (slots (STATE w) ! r) of None \<Rightarrow> 0 | Some t \<Rightarrow> t),
                     fee = computeFee (STATE w)
                       (now - (case entryTime (slots (STATE w) ! r) of None \<Rightarrow> 0 | Some t \<Rightarrow> t)) \<rparr>],
          save (w\<lparr>STATE := (STATE w)\<lparr>
            slots := (slots (STATE w))[r := (slots (STATE w) ! r)\<lparr> occupied := False, vehicle := None, entryTime := None \<rparr>],
            history := \<lparr> vehicleNumber = number v, owner_h = owner v, type_h = type_v v,
                     slotId = id_s (slots (STATE w) ! r),
                     entryTime_h = entryTime (slots (STATE w) ! r), exitTime = now,
                     durationMs = now - (case entryTime (slots (STATE w) ! r) of None \<Rightarrow> 0 | Some t \<Rightarrow> t),
                     fee = computeFee (STATE w)
                       (now - (case entryTime (slots (STATE w) ! r) of None \<Rightarrow> 0 | Some t \<Rightarrow> t)) \<rparr>
                 # history (STATE w),
            timers := clearTimer (timers (STATE w)) k \<rparr>\<rparr>))"
  using assms by (simp add: removeVehicleFlow_def Let_def)

lemma removeVehicleFlow_throws:
  "find_pos (\<lambda>x. id_s x = k) (slots (STATE w)) = Some r \<Longrightarrow> occupied (slots (STATE w) ! r) \<Longrightarrow>
   vehicle (slots (STATE w) ! r) = None \<Longrightarrow>
     removeVehicleFlow w k now c = Inl TypeError"
  by (simp add: removeVehicleFlow_def Let_def)

text \<open>Every run of the flow that returns either leaves the world alone or is the confirmed removal.\<close>

lemma removeVehicleFlow_Inr:
  assumes "removeVehicleFlow w k now c = Inr (u, w')"
  obtains "w' = w"
  | r v where "find_pos (\<lambda>x. id_s x = k) (slots (STATE w)) = Some r"
      "occupied (slots (STATE w) ! r)" "vehicle (slots (STATE w) ! r) = Some v" "c"
proof (cases "find_pos (\<lambda>x. id_s x = k) (slots (STATE w))")
  case None
  with assms removeVehicleFlow_unknown [OF None, of now c] that(1) show ?thesis by simp
next
  case (Some r)
  show ?thesis
  proof (cases "occupied (slots (STATE w) ! r)")
    case False
    with assms removeVehicleFlow_empty [OF Some False, of now c] that(1) show ?thesis by simp
  next
    case True
    show ?thesis
    proof (cases "vehicle (slots (STATE w) ! r)")
      case None
      with assms removeVehicleFlow_throws [OF Some True None, of now c] show ?thesis by simp
    next
      case (Some v)
      show ?thesis
      proof (cases c)
        case True
        with \<open>find_pos (\<lambda>x. id_s x = k) (slots (STATE w)) = Some r\<close>
          \<open>occupied (slots (STATE w) ! r)\<close> Some that(2) show ?thesis by blast
      next
        case False
        with assms removeVehicleFlow_cancel
          [OF \<open>find_pos (\<lambda>x. id_s x = k) (slots (STATE w)) = Some r\<close>
              \<open>occupied (slots (STATE w) ! r)\<close> Some, of now] that(1)
        show ?thesis by simp
      qed
    qed
  qed
qed

lemma world_ok_removal:
  assumes "world_ok w" and "removeVehicleFlow w k now c = Inr (u, w')"
  shows "world_ok w'"
  using assms(2)
proof (cases rule: removeVehicleFlow_Inr)
  case 1
  with assms(1) show ?thesis by simp
next
  case (2 r v)
  from assms(1) have reg: "registry_ok (config (STATE w)) (slots (STATE w))"
    by (simp add: world_ok_def)
  let ?s = "(slots (STATE w) ! r)\<lparr> occupied := False, vehicle := None, entryTime := None \<rparr>"
  have "registry_ok (config (STATE w)) ((slots (STATE w))[r := ?s])"
    by (rule registry_ok_update [OF reg]) (simp_all add: session_inv_def)
  then have "world_ok (save (w\<lparr>STATE := (STATE w)\<lparr>slots := (slots (STATE w))[r := ?s],
      history := hs, timers := ts\<rparr>\<rparr>))" for hs ts
    by (intro world_ok_save_state) simp
  moreover from assms(2) 2(4) removeVehicleFlow_confirm [OF 2(1,2,3), of now]
  have "\<exists>hs ts. w' = save (w\<lparr>STATE := (STATE w)\<lparr>slots := (slots (STATE w))[r := ?s],
      history := hs, timers := ts\<rparr>\<rparr>)"
    by auto
  ultimately show ?thesis by blast
qed

lemma world_ok_toggleTheme: "world_ok w \<Longrightarrow> world_ok (toggleTheme w)"
proof (cases "theme (STATE w) = ''dark''")
  case True
  assume "world_ok w"
  with True show ?thesis by (simp add: toggleTheme_def world_ok_def)
next
  case False
  assume "world_ok w"
  then have "store_ok (localStorage w)" by (simp add: world_ok_def)
  then have "world_ok (boot (localStorage w))" by (rule world_ok_boot)
  with False show ?thesis by (simp add: toggleTheme_def)
qed

lemma world_ok_timers: "world_ok w \<Longrightarrow> world_ok (w\<lparr>STATE := (STATE w)\<lparr>timers := ts\<rparr>\<rparr>)"
  by (simp add: world_ok_def)

lemma reachable_world_ok: "reachable w \<Longrightarrow> world_ok w"
proof (induction rule: reachable.induct)
  case first_visit
  show ?case by (rule world_ok_first)
next
  case (reload w)
  then have "store_ok (localStorage w)" by (simp add: world_ok_def)
  then show ?case by (rule world_ok_boot)
next
  case (entry w num own ty now)
  then show ?case by (simp add: world_ok_entry)
next
  case (removal w k now c u w')
  then show ?case by (blast intro: world_ok_removal)
next
  case (reset w)
  then show ?case by (simp add: world_ok_reset)
next
  case (loaded w)
  then show ?case by (simp add: world_ok_load)
next
  case (saved w)
  then show ?case by (simp add: world_ok_save)
next
  case (themed w)
  then show ?case by (simp add: world_ok_toggleTheme)
next
  case (timed w ts)
  then show ?case by (simp add: world_ok_timers)
qed

lemma ex_nth_set: "(\<exists>q<length xs. P (xs ! q)) = (\<exists>x\<in>set xs. P x)"
  by (metis in_set_conv_nth)

lemma all_nth_set: "(\<forall>q<length xs. P (xs ! q)) = (\<forall>x\<in>set xs. P x)"
  by (metis in_set_conv_nth)

lemma slots_entrySubmit_length:
  "length (slots (STATE (snd (entrySubmit w num own ty now)))) = length (slots (STATE w))"
  by (cases "nearestEmptySlot (STATE w) ty") (simp_all add: entrySubmit_None entrySubmit_Some)

lemma slots_removeVehicleFlow_length:
  assumes "removeVehicleFlow w k now c = Inr (u, w')"
  shows "length (slots (STATE w')) = length (slots (STATE w))"
  using assms
proof (cases rule: removeVehicleFlow_Inr)
  case 1
  then show ?thesis by simp
next
  case (2 r v)
  with assms removeVehicleFlow_confirm [OF 2(1,2,3), of now] show ?thesis by auto
qed

lemma reachable_length:
  "reachable w \<Longrightarrow> length (slots (STATE w)) = nat (totalSlots (config STATE0))"
proof -
  assume "reachable w"
  then have "registry_ok (config (STATE w)) (slots (STATE w))"
    using reachable_world_ok by (simp add: world_ok_def)
  then have "map id_s (slots (STATE w)) = [1..totalSlots (config STATE0)]"
    by (simp add: registry_ok_def)
  then have "length (map id_s (slots (STATE w))) = length [1..totalSlots (config STATE0)]"
    by simp
  then show ?thesis by simp
qed

lemma rowType_nth:
  assumes "typesByRow c \<noteq> []" and "1 \<le> i"
  shows "rowType c i = Some (typesByRow c ! (nat i mod length (typesByRow c)))"
proof -
  from assms(2) have "nat (i mod int (length (typesByRow c))) = nat i mod length (typesByRow c)"
    by (simp add: nat_mod_distrib)
  with assms(1) show ?thesis by (simp add: rowType_def)
qed

lemma computeFee_config: "config st = config st' \<Longrightarrow> computeFee st ms = computeFee st' ms"
  by (simp add: computeFee_def)

lemma reachable_distinct_ids: "reachable w \<Longrightarrow> distinct (map id_s (slots (STATE w)))"
proof -
  assume "reachable w"
  then have "registry_ok (config (STATE w)) (slots (STATE w))"
    using reachable_world_ok by (simp add: world_ok_def)
  then show ?thesis by (simp add: registry_ok_def)
qed

lemma load_save: "STATE (load ((save w)\<lparr>STATE := st'\<rparr>)) = (STATE w)\<lparr>timers := []\<rparr>"
  by (simp add: load_def load_try_def save_def getItem_or_braces_def persist_def assign_def)

lemma load_keeps:
  assumes "item = None \<or> item = Some EmptyText \<or> item = Some BadText
           \<or> item = Some (JsonText JNull) \<or> item = Some (JsonText JOther)
           \<or> (\<exists>d. item = Some (JsonText (JObject d)) \<and> (p_slots d = None \<or> p_history d = None))"
  shows "load \<lparr> STATE = st, localStorage = item \<rparr> = \<lparr> STATE = st, localStorage = item \<rparr>"
  using assms
  by (auto simp: load_def load_try_def getItem_or_braces_def no_fields_def)

lemma session_inv_newSlot: "session_inv (newSlot c i)"
  by (simp add: session_inv_def newSlot_def)

lemma session_inv_initSlots:
  "slots st = [] \<Longrightarrow> list_all session_inv (slots (initSlots st))"
  by (simp add: slots_initSlots list_all_iff session_inv_newSlot)

lemma session_inv_entrySubmit:
  assumes "list_all session_inv (slots (STATE w))"
  shows "list_all session_inv (slots (STATE (snd (entrySubmit w num own ty now))))"
proof (cases "nearestEmptySlot (STATE w) ty")
  case None
  with assms show ?thesis by (simp add: entrySubmit_None)
next
  case (Some r)
  with assms show ?thesis
    by (simp add: entrySubmit_Some list_all_update session_inv_def)
qed

lemma session_inv_removeVehicleFlow:
  assumes "list_all session_inv (slots (STATE w))" and "removeVehicleFlow w k now c = Inr (u, w')"
  shows "list_all session_inv (slots (STATE w'))"
  using assms(2)
proof (cases rule: removeVehicleFlow_Inr)
  case 1
  with assms(1) show ?thesis by simp
next
  case (2 r v)
  with assms removeVehicleFlow_confirm [OF 2(1,2,3), of now] show ?thesis
    by (auto simp: list_all_update session_inv_def)
qed

lemma ids_entrySubmit:
  "map id_s (slots (STATE (snd (entrySubmit w num own ty now)))) = map id_s (slots (STATE w))"
  "map type_s (slots (STATE (snd (entrySubmit w num own ty now)))) = map type_s (slots (STATE w))"
  by (cases "nearestEmptySlot (STATE w) ty";
      simp add: entrySubmit_None entrySubmit_Some map_update_same)+

lemma ids_removeVehicleFlow:
  assumes "removeVehicleFlow w k now c = Inr (u, w')"
  shows "map id_s (slots (STATE w')) = map id_s (slots (STATE w))
         \<and> map type_s (slots (STATE w')) = map type_s (slots (STATE w))"
  using assms
proof (cases rule: removeVehicleFlow_Inr)
  case 1
  then show ?thesis by simp
next
  case (2 r v)
  with assms removeVehicleFlow_confirm [OF 2(1,2,3), of now] show ?thesis
    by (auto simp: map_update_same)
qed

lemma reachable_registry:
  assumes "reachable w"
  shows "list_all session_inv (slots (STATE w))
         \<and> map id_s (slots (STATE w)) = map id_s (slots (STATE (boot None)))
         \<and> map type_s (slots (STATE w)) = map type_s (slots (STATE (boot None)))"
proof -
  from assms have 1: "registry_ok (config (STATE w)) (slots (STATE w))"
    using reachable_world_ok by (simp add: world_ok_def)
  have 2: "registry_ok (config (STATE (boot None))) (slots (STATE (boot None)))"
    using world_ok_first by (simp add: world_ok_def)
  from 1 2 show ?thesis by (simp add: registry_ok_def)
qed

lemma foldl_fee: "foldl (\<lambda>sum h. sum + fee h) a hs = a + sum_list (map fee hs)"
  by (induction hs arbitrary: a) simp_all

lemma revenueByDay_loop_eq:
  "revenueByDay_loop dayStart dayLabel st i acc =
     acc @ map (\<lambda>j. \<lparr> label = dayLabel j,
                        value_b = feesBetween st (dayStart j) (dayStart j + 86400000 - 1) \<rparr>)
             (rev [0..i])"
proof (induction dayStart dayLabel st i acc rule: revenueByDay_loop.induct)
  case (1 dayStart dayLabel st i acc)
  show ?case
  proof (cases "i \<ge> 0")
    case True
    then have up: "rev [0..i] = i # rev [0..i - 1]" by (simp add: upto_rec2)
    from True "1.IH" [OF True refl refl refl] show ?thesis
      by (subst revenueByDay_loop.simps) (simp add: up Let_def foldl_fee feesBetween_def)
  next
    case False
    then show ?thesis by (subst revenueByDay_loop.simps) simp
  qed
qed

lemma revenueByDay_eq:
  "revenueByDay dayStart dayLabel st days =
     map (\<lambda>j. \<lparr> label = dayLabel j,
                  value_b = feesBetween st (dayStart j) (dayStart j + 86400000 - 1) \<rparr>)
       (rev [0..days - 1])"
  by (simp add: revenueByDay_def revenueByDay_loop_eq)

lemma revenueByDay_length: "length (revenueByDay dayStart dayLabel st days) = nat days"
  by (simp add: revenueByDay_eq)

lemma feesBetween_nonneg:
  "\<forall>h\<in>set (history st). 0 \<le> fee h \<Longrightarrow> 0 \<le> feesBetween st lo hi"
  by (auto simp: feesBetween_def intro!: sum_list_nonneg)

lemma feesBetween_split:
  assumes "lo \<le> mid" and "mid \<le> hi + 1"
  shows "feesBetween st lo (mid - 1) + feesBetween st mid hi = feesBetween st lo hi"
proof -
  have "sum_list (map fee (filter (\<lambda>h. lo \<le> exitTime h \<and> exitTime h \<le> mid - 1) hs))
        + sum_list (map fee (filter (\<lambda>h. mid \<le> exitTime h \<and> exitTime h \<le> hi) hs))
        = sum_list (map fee (filter (\<lambda>h. lo \<le> exitTime h \<and> exitTime h \<le> hi) hs))" for hs
    using assms by (induction hs) auto
  then show ?thesis by (simp add: feesBetween_def)
qed

text \<open>When consecutive local midnights are twenty-four hours apart, the buckets add up to
  the fees of the whole window.\<close>

lemma revenueByDay_total_24h:
  assumes "\<forall>j. 0 \<le> j \<and> j < int n \<longrightarrow> dayStart j = dayStart (j + 1) + 86400000"
  shows "sum_list (map value_b (revenueByDay dayStart dayLabel st (int n + 1)))
         = feesBetween st (dayStart (int n)) (dayStart 0 + 86400000 - 1)"
  using assms
proof (induction n)
  case 0
  show ?case by (simp add: revenueByDay_eq)
next
  case (Suc n)
  from Suc.prems have step: "dayStart (int n) = dayStart (int n + 1) + 86400000" by simp
  from Suc.prems have below: "\<forall>j. 0 \<le> j \<and> j < int n \<longrightarrow> dayStart j = dayStart (j + 1) + 86400000"
    by simp
  have mono: "dayStart (int k) \<le> dayStart 0" if "k \<le> n" for k
    using that
  proof (induction k)
    case 0
    show ?case by simp
  next
    case (Suc k)
    then have "dayStart (int k) = dayStart (int k + 1) + 86400000" using below by simp
    moreover from Suc have "dayStart (int k) \<le> dayStart 0" by simp
    moreover have "int (Suc k) = int k + 1" by simp
    ultimately show ?case by (simp only:)
  qed
  have ih: "sum_list (map value_b (revenueByDay dayStart dayLabel st (int n + 1)))
         = feesBetween st (dayStart (int n)) (dayStart 0 + 86400000 - 1)"
    by (rule Suc.IH [OF below])
  have e: "int (Suc n) + 1 - 1 = int n + 1" "int n + 1 - 1 = int n" by simp_all
  have u: "rev [0..int n + 1] = (int n + 1) # rev [0..int n]" by (simp add: upto_rec2)
  have "revenueByDay dayStart dayLabel st (int (Suc n) + 1)
        = \<lparr> label = dayLabel (int n + 1),
            value_b = feesBetween st (dayStart (int n + 1)) (dayStart (int n + 1) + 86400000 - 1) \<rparr>
          # revenueByDay dayStart dayLabel st (int n + 1)"
    by (simp only: revenueByDay_eq e u list.map)
  then have "sum_list (map value_b (revenueByDay dayStart dayLabel st (int (Suc n) + 1)))
        = feesBetween st (dayStart (int n + 1)) (dayStart (int n + 1) + 86400000 - 1)
          + sum_list (map value_b (revenueByDay dayStart dayLabel st (int n + 1)))"
    by simp
  also have "\<dots> = feesBetween st (dayStart (int n + 1)) (dayStart (int n) - 1)
          + feesBetween st (dayStart (int n)) (dayStart 0 + 86400000 - 1)"
    using step ih by simp
  also have "\<dots> = feesBetween st (dayStart (int n + 1)) (dayStart 0 + 86400000 - 1)"
    using step mono [of n] by (intro feesBetween_split) simp_all
  finally show ?case by (simp add: add.commute)
qed

lemma binade_bounds:
  assumes "0 < x"
  shows "2 powi (binade x) \<le> x \<and> x < 2 powi (binade x + 1)"
proof (cases "1 \<le> x")
  case True
  then have pos: "0 < \<lfloor>x\<rfloor>" by linarith
  let ?n = "\<lfloor>x\<rfloor>"
  from bitlen_bounds [OF pos]
  have lo: "2 ^ nat (bitlen ?n - 1) \<le> ?n" and hi: "?n < 2 ^ nat (bitlen ?n)" by simp_all
  from pos have b1: "1 \<le> bitlen ?n" by (simp add: bitlen_alt_def)
  have "(2::real) powi (bitlen ?n - 1) = 2 ^ nat (bitlen ?n - 1)"
    using b1 by (simp add: power_int_def)
  also have "\<dots> = of_int (2 ^ nat (bitlen ?n - 1))" by simp
  also have "\<dots> \<le> of_int ?n" using lo by (simp only: of_int_le_iff)
  also have "\<dots> \<le> x" by simp
  finally have 1: "2 powi (bitlen ?n - 1) \<le> x" .
  from hi have "?n + 1 \<le> 2 ^ nat (bitlen ?n)" by simp
  then have "of_int (?n + 1) \<le> (of_int (2 ^ nat (bitlen ?n)) :: real)"
    by (simp only: of_int_le_iff)
  then have "real_of_int ?n + 1 \<le> 2 ^ nat (bitlen ?n)" by simp
  moreover have "x < real_of_int ?n + 1" by linarith
  ultimately have "x < 2 ^ nat (bitlen ?n)" by linarith
  also have "\<dots> = (2::real) powi (bitlen ?n - 1 + 1)"
    using b1 by (simp add: power_int_def)
  finally have 2: "x < 2 powi (bitlen ?n - 1 + 1)" .
  from True 1 2 show ?thesis by (simp add: binade_def)
next
  case False
  with assms have x1: "x < 1" by simp
  let ?N = "\<lceil>1 / x\<rceil>"
  let ?M = "?N - 1"
  from assms x1 have "1 < 1 / x" by simp
  then have "1 < ?N" by linarith
  then have pos: "0 < ?M" by simp
  let ?L = "bitlen ?M"
  from bitlen_bounds [OF pos]
  have lo: "2 ^ nat (?L - 1) \<le> ?M" and hi: "?M < 2 ^ nat ?L" by simp_all
  from pos have b1: "1 \<le> ?L" by (simp add: bitlen_alt_def)
  have "1 / x \<le> of_int ?N" by linarith
  also have "?N \<le> 2 ^ nat ?L" using hi by simp
  then have "(of_int ?N :: real) \<le> of_int (2 ^ nat ?L)" by (simp only: of_int_le_iff)
  finally have "1 / x \<le> 2 ^ nat ?L" by simp
  with assms have "1 \<le> x * 2 ^ nat ?L" by (simp add: field_simps)
  then have "1 / 2 ^ nat ?L \<le> x" by (simp add: field_simps)
  moreover have "(2::real) powi (- ?L) = 1 / 2 ^ nat ?L"
    using b1 by (simp add: power_int_def field_simps)
  ultimately have 1: "2 powi (- ?L) \<le> x" by simp
  have "(of_int (2 ^ nat (?L - 1)) :: real) \<le> of_int ?M" using lo by (simp only: of_int_le_iff)
  then have "2 ^ nat (?L - 1) \<le> real_of_int ?M" by simp
  moreover have "real_of_int ?M < 1 / x" by linarith
  ultimately have "2 ^ nat (?L - 1) < 1 / x" by linarith
  with assms have "x * 2 ^ nat (?L - 1) < 1" by (simp add: field_simps)
  then have "x < 1 / 2 ^ nat (?L - 1)" by (simp add: field_simps)
  moreover have "(2::real) powi (- ?L + 1) = 1 / 2 ^ nat (?L - 1)"
  proof -
    have "- ?L + 1 = - (?L - 1)" by simp
    then have "(2::real) powi (- ?L + 1) = inverse (2 powi (?L - 1))"
      by (simp only: power_int_minus)
    also have "\<dots> = 1 / 2 ^ nat (?L - 1)" using b1 by (simp add: power_int_def field_simps)
    finally show ?thesis .
  qed
  ultimately have 2: "x < 2 powi (- ?L + 1)" by simp
  from False 1 2 show ?thesis by (simp add: binade_def)
qed

lemma ties_even_of_int: "ties_even (of_int n) = n"
  by (simp add: ties_even_def)

lemma ties_even_range: "\<lfloor>y\<rfloor> \<le> ties_even y \<and> ties_even y \<le> \<lfloor>y\<rfloor> + 1"
  by (simp add: ties_even_def Let_def)

lemma ties_even_up: "1 / 2 < y - of_int \<lfloor>y\<rfloor> \<Longrightarrow> ties_even y = \<lfloor>y\<rfloor> + 1"
  by (simp add: ties_even_def Let_def)

lemma ties_even_down: "y - of_int \<lfloor>y\<rfloor> < 1 / 2 \<Longrightarrow> ties_even y = \<lfloor>y\<rfloor>"
  by (simp add: ties_even_def Let_def)

text \<open>Strictly between two integers that are more than a half away, the rounded value stays
  strictly between them.\<close>

lemma ties_even_strict:
  assumes "of_int A + 1 / 2 < y" and "y < of_int B - 1 / 2"
  shows "A < ties_even y \<and> ties_even y < B"
proof -
  have fl: "A \<le> \<lfloor>y\<rfloor>" "\<lfloor>y\<rfloor> < B" using assms by linarith+
  have lo: "A < ties_even y"
  proof (cases "\<lfloor>y\<rfloor> = A")
    case True
    with assms(1) have "1 / 2 < y - of_int \<lfloor>y\<rfloor>" by simp
    then have "ties_even y = \<lfloor>y\<rfloor> + 1" by (rule ties_even_up)
    with True show ?thesis by simp
  next
    case False
    with fl(1) have "A < \<lfloor>y\<rfloor>" by simp
    with ties_even_range [of y] show ?thesis by simp
  qed
  have hi: "ties_even y < B"
  proof (cases "\<lfloor>y\<rfloor> + 1 = B")
    case True
    then have "of_int B = of_int \<lfloor>y\<rfloor> + (1::real)" by (metis of_int_1 of_int_add)
    with assms(2) have "y - of_int \<lfloor>y\<rfloor> < 1 / 2" by simp
    then have "ties_even y = \<lfloor>y\<rfloor>" by (rule ties_even_down)
    with fl(2) show ?thesis by simp
  next
    case False
    with fl(2) have "\<lfloor>y\<rfloor> + 1 < B" by simp
    with ties_even_range [of y] show ?thesis by simp
  qed
  from lo hi show ?thesis ..
qed


lemma round_double_minus: "round_double (- x) = - round_double x"
  by (simp add: round_double_def Let_def sgn_minus)

lemma round_double_pos:
  "0 < x \<Longrightarrow> round_double x
     = real_of_int (ties_even (x / 2 powi (binade x - 52))) * 2 powi (binade x - 52)"
  by (simp add: round_double_def Let_def)

text \<open>The unit in the last place of a positive quotient of a safe integer.\<close>

lemma ulp_facts:
  fixes a b :: int
  assumes "0 < a" and "a < 2 ^ 53" and "0 < b"
  defines "x \<equiv> real_of_int a / real_of_int b"
  defines "u \<equiv> (2::real) powi (binade x - 52)"
  shows "0 < u" and "real_of_int b * u < 2"
    and "\<exists>P::int. 0 < P \<and> (\<forall>n::int. real_of_int n / u = real_of_int (n * P))"
proof -
  have xpos: "0 < x" using assms by (simp add: x_def)
  from binade_bounds [OF xpos] have lo: "2 powi (binade x) \<le> x" by simp
  have "x \<le> real_of_int a"
  proof -
    from assms(3) have "1 \<le> real_of_int b" by simp
    with assms(1) show ?thesis by (simp add: x_def field_simps mult_le_cancel_left1)
  qed
  also have "\<dots> < 2 ^ 53" using assms(2) by (metis of_int_less_iff of_int_numeral of_int_power)
  finally have xu: "x < 2 ^ 53" .
  have e52: "binade x \<le> 52"
  proof (rule ccontr)
    assume "\<not> binade x \<le> 52"
    then have "53 \<le> binade x" by simp
    then have "(2::real) powi 53 \<le> 2 powi (binade x)" by (intro power_int_increasing) simp_all
    with lo xu show False by simp
  qed
  show upos: "0 < u" by (simp add: u_def)
  have ue: "u = 2 powi (binade x) / 2 ^ 52"
    by (simp add: u_def power_int_diff)
  from lo have "real_of_int b * 2 powi (binade x) \<le> real_of_int a"
    using assms(3) by (simp add: x_def field_simps)
  with \<open>real_of_int a < 2 ^ 53\<close> have "real_of_int b * 2 powi (binade x) < 2 ^ 53" by linarith
  then show "real_of_int b * u < 2" by (simp add: ue field_simps)
  let ?P = "(2::int) ^ nat (52 - binade x)"
  have "u = inverse (2 powi (52 - binade x))"
    by (simp add: u_def power_int_minus [symmetric])
  also have "\<dots> = inverse (real_of_int ?P)" using e52 by (simp add: power_int_def)
  finally have uP: "u = inverse (real_of_int ?P)" .
  have "real_of_int n / u = real_of_int (n * ?P)" for n
    by (simp add: uP field_simps)
  moreover have "0 < ?P" by simp
  ultimately show "\<exists>P::int. 0 < P \<and> (\<forall>n::int. real_of_int n / u = real_of_int (n * P))"
    by blast
qed

lemma round_double_exact:
  fixes k :: int
  assumes "0 < k" and "k < 2 ^ 53"
  shows "round_double (real_of_int k) = real_of_int k"
proof -
  let ?x = "real_of_int k"
  let ?u = "(2::real) powi (binade ?x - 52)"
  from ulp_facts [OF assms, of 1]
  obtain P :: int where u: "0 < ?u" and P: "\<forall>n::int. real_of_int n / ?u = real_of_int (n * P)"
    by auto
  from P have "?x / ?u = real_of_int (k * P)" by blast
  then have "ties_even (?x / ?u) = k * P" by (simp only: ties_even_of_int)
  moreover from P u have "real_of_int (k * P) * ?u = ?x"
    by (metis nonzero_divide_eq_eq less_irrefl)
  moreover from assms(1) have "0 < ?x" by simp
  ultimately show ?thesis by (simp only: round_double_pos)
qed

lemma round_double_between:
  fixes a b :: int
  assumes "0 < a" and "a < 2 ^ 53" and "0 < b" and "\<not> b dvd a"
  shows "real_of_int (a div b) < round_double (real_of_int a / real_of_int b)
         \<and> round_double (real_of_int a / real_of_int b) < real_of_int (a div b) + 1"
proof -
  let ?x = "real_of_int a / real_of_int b"
  let ?u = "(2::real) powi (binade ?x - 52)"
  let ?k = "a div b"
  let ?r = "a mod b"
  from ulp_facts [OF assms(1,2,3)]
  obtain P :: int where u: "0 < ?u" and bu: "real_of_int b * ?u < 2"
    and P: "\<forall>n::int. real_of_int n / ?u = real_of_int (n * P)"
    by auto
  have xpos: "0 < ?x" using assms by simp
  from assms(4) have "?r \<noteq> 0" by (simp add: dvd_eq_mod_eq_0)
  with pos_mod_bound [OF assms(3), of a] pos_mod_sign [OF assms(3), of a]
  have r: "1 \<le> ?r" "?r \<le> b - 1" by linarith+
  have a: "a = ?k * b + ?r" by simp
  have xk: "?x = real_of_int ?k + real_of_int ?r / real_of_int b"
  proof -
    have "real_of_int a = real_of_int ?k * real_of_int b + real_of_int ?r"
      by (metis a of_int_add of_int_mult)
    with assms(3) show ?thesis by (simp add: field_simps)
  qed
  have step: "1 / 2 < 1 / (real_of_int b * ?u)"
    using bu u assms(3) by (simp add: field_simps)
  have low: "1 / real_of_int b \<le> ?x - real_of_int ?k"
    using r(1) assms(3) by (simp add: xk field_simps)
  have high: "1 / real_of_int b \<le> real_of_int ?k + 1 - ?x"
    using r(2) assms(3) by (simp add: xk field_simps)
  let ?y = "?x / ?u"
  have A: "real_of_int (?k * P) = real_of_int ?k / ?u"
    and B: "real_of_int ((?k + 1) * P) = (real_of_int ?k + 1) / ?u"
    using P [rule_format, of ?k] P [rule_format, of "?k + 1"] by simp_all
  have inv: "1 / (real_of_int b * ?u) = (1 / real_of_int b) / ?u" by simp
  have "(1 / real_of_int b) / ?u \<le> (?x - real_of_int ?k) / ?u"
    using low u by (intro divide_right_mono) simp_all
  also have "\<dots> = ?y - real_of_int (?k * P)"
    by (simp only: A diff_divide_distrib)
  finally have "1 / (real_of_int b * ?u) \<le> ?y - real_of_int (?k * P)"
    by (simp only: inv)
  with step have 1: "real_of_int (?k * P) + 1 / 2 < ?y" by linarith
  have "(1 / real_of_int b) / ?u \<le> (real_of_int ?k + 1 - ?x) / ?u"
    using high u by (intro divide_right_mono) simp_all
  also have "\<dots> = real_of_int ((?k + 1) * P) - ?y"
    by (simp only: B diff_divide_distrib)
  finally have "1 / (real_of_int b * ?u) \<le> real_of_int ((?k + 1) * P) - ?y"
    by (simp only: inv)
  with step have 2: "?y < real_of_int ((?k + 1) * P) - 1 / 2" by linarith
  from ties_even_strict [OF 1 2]
  have m: "?k * P < ties_even ?y" "ties_even ?y < (?k + 1) * P" by simp_all
  have rd: "round_double ?x = real_of_int (ties_even ?y) * ?u"
    using xpos by (rule round_double_pos)
  from m(1) have "real_of_int (?k * P) < real_of_int (ties_even ?y)" by (simp only: of_int_less_iff)
  then have "real_of_int ?k / ?u < real_of_int (ties_even ?y)" by (simp only: A)
  with u have lo: "real_of_int ?k < real_of_int (ties_even ?y) * ?u"
    by (simp add: field_simps)
  from m(2) have "real_of_int (ties_even ?y) < real_of_int ((?k + 1) * P)"
    by (simp only: of_int_less_iff)
  then have "real_of_int (ties_even ?y) < (real_of_int ?k + 1) / ?u" by (simp only: B)
  with u have hi: "real_of_int (ties_even ?y) * ?u < real_of_int ?k + 1"
    by (simp add: field_simps)
  from lo hi show ?thesis by (simp only: rd)
qed

lemma round_double_floor_ceiling_pos:
  fixes a b :: int
  assumes "0 < a" and "a < 2 ^ 53" and "0 < b"
  shows "\<lceil>round_double (real_of_int a / real_of_int b)\<rceil> = \<lceil>real_of_int a / real_of_int b\<rceil>"
    and "\<lfloor>round_double (real_of_int a / real_of_int b)\<rfloor> = \<lfloor>real_of_int a / real_of_int b\<rfloor>"
proof -
  let ?x = "real_of_int a / real_of_int b"
  have goal: "\<lceil>round_double ?x\<rceil> = \<lceil>?x\<rceil> \<and> \<lfloor>round_double ?x\<rfloor> = \<lfloor>?x\<rfloor>"
  proof (cases "b dvd a")
    case True
    then obtain k where k: "a = b * k" by (auto simp: dvd_def)
    with assms have kpos: "0 < k" by (simp add: zero_less_mult_iff)
    from assms(3) have "1 \<le> b" by simp
    with kpos have "1 * k \<le> b * k" by (intro mult_right_mono) simp_all
    with k have "k \<le> a" by simp
    with assms(2) have k53: "k < 2 ^ 53" by simp
    from k assms(3) have "?x = real_of_int k" by simp
    with round_double_exact [OF kpos k53] show ?thesis by simp
  next
    case False
    from round_double_between [OF assms False]
    have b: "real_of_int (a div b) < round_double ?x" "round_double ?x < real_of_int (a div b) + 1"
      by simp_all
    have fx: "\<lfloor>?x\<rfloor> = a div b" by (rule floor_divide_of_int_eq)
    have "real_of_int a / real_of_int b \<noteq> real_of_int (a div b)"
    proof
      assume "real_of_int a / real_of_int b = real_of_int (a div b)"
      with assms(3) have "real_of_int a = real_of_int (a div b * b)" by (simp add: field_simps)
      then have "a = a div b * b" by (simp only: of_int_eq_iff)
      with False show False by (metis dvd_triv_right)
    qed
    then have "?x \<noteq> real_of_int \<lfloor>?x\<rfloor>" by (simp add: fx)
    then have cx: "\<lceil>?x\<rceil> = a div b + 1"
      using fx by (metis ceiling_altdef)
    from b have "\<lceil>round_double ?x\<rceil> = a div b + 1" by (intro ceiling_unique) simp_all
    moreover from b have "\<lfloor>round_double ?x\<rfloor> = a div b" by (intro floor_unique) simp_all
    ultimately show ?thesis using cx fx by simp
  qed
  from goal show "\<lceil>round_double ?x\<rceil> = \<lceil>?x\<rceil>" ..
  from goal show "\<lfloor>round_double ?x\<rfloor> = \<lfloor>?x\<rfloor>" ..
qed

lemma ceiling_round_double:
  fixes a b :: int
  assumes "\<bar>a\<bar> < 2 ^ 53" and "0 < b"
  shows "\<lceil>round_double (real_of_int a / real_of_int b)\<rceil> = \<lceil>real_of_int a / real_of_int b\<rceil>"
proof -
  consider "0 < a" | "a = 0" | "a < 0" by linarith
  then show ?thesis
  proof cases
    case 1
    with assms show ?thesis by (intro round_double_floor_ceiling_pos) simp_all
  next
    case 2
    then show ?thesis by (simp add: round_double_def)
  next
    case 3
    with assms have p: "0 < - a" "- a < 2 ^ 53" by simp_all
    let ?x = "real_of_int (- a) / real_of_int b"
    have "real_of_int a / real_of_int b = - ?x" by simp
    then have "\<lceil>round_double (real_of_int a / real_of_int b)\<rceil> = - \<lfloor>round_double ?x\<rfloor>"
      by (simp only: round_double_minus ceiling_minus)
    also have "\<dots> = - \<lfloor>?x\<rfloor>"
      by (simp only: round_double_floor_ceiling_pos(2) [OF p assms(2)])
    also have "\<dots> = \<lceil>real_of_int a / real_of_int b\<rceil>"
      by (simp add: ceiling_def)
    finally show ?thesis .
  qed
qed

section \<open>The fee rule\<close>

lemma Math_ceil_div_safe:
  assumes "safe a" and "0 < b"
  shows "Math_ceil_div a b = \<lceil>real_of_int a / real_of_int b\<rceil>"
  using assms by (simp add: Math_ceil_div_def safe_def ceiling_round_double)

lemma js_int_safe:
  assumes "safe n"
  shows "js_int n = n"
proof -
  consider "0 < n" | "n = 0" | "n < 0" by linarith
  then show ?thesis
  proof cases
    case 1
    with assms have "round_double (real_of_int n) = real_of_int n"
      by (intro round_double_exact) (simp_all add: safe_def)
    then show ?thesis by (simp add: js_int_def)
  next
    case 2
    then show ?thesis by (simp add: js_int_def round_double_def)
  next
    case 3
    with assms have "round_double (real_of_int (- n)) = real_of_int (- n)"
      by (intro round_double_exact) (simp_all add: safe_def)
    then have "round_double (- real_of_int n) = - real_of_int n" by simp
    then have "round_double (real_of_int n) = real_of_int n"
      by (simp add: round_double_minus)
    then show ?thesis by (simp add: js_int_def)
  qed
qed

lemma computeFee_safe:
  assumes "safe ms"
    and "safe (\<lceil>real_of_int ms / 60000\<rceil> - baseMinutes (fee_c (config st)))"
    and "safe (\<lceil>real_of_int (\<lceil>real_of_int ms / 60000\<rceil> - baseMinutes (fee_c (config st))) / 60\<rceil>
               * hourlyAfter (fee_c (config st)))"
    and "safe (basePrice (fee_c (config st))
               + \<lceil>real_of_int (\<lceil>real_of_int ms / 60000\<rceil> - baseMinutes (fee_c (config st))) / 60\<rceil>
                 * hourlyAfter (fee_c (config st)))"
  shows "computeFee st ms = computeFee_spec (fee_c (config st)) ms"
proof -
  let ?f = "fee_c (config st)"
  let ?m = "\<lceil>real_of_int ms / 60000\<rceil>"
  let ?h = "\<lceil>real_of_int (?m - baseMinutes ?f) / 60\<rceil>"
  have m: "Math_ceil_div ms 60000 = ?m"
    using Math_ceil_div_safe [OF assms(1), of 60000] by simp
  have e: "js_int (?m - baseMinutes ?f) = ?m - baseMinutes ?f"
    using assms(2) by (rule js_int_safe)
  have h: "Math_ceil_div (?m - baseMinutes ?f) 60 = ?h"
    using Math_ceil_div_safe [OF assms(2), of 60] by simp
  have p: "js_int (?h * hourlyAfter ?f) = ?h * hourlyAfter ?f"
    using assms(3) by (rule js_int_safe)
  have t: "js_int (basePrice ?f + ?h * hourlyAfter ?f) = basePrice ?f + ?h * hourlyAfter ?f"
    using assms(4) by (rule js_int_safe)
  show ?thesis
  proof (cases "?m \<le> baseMinutes ?f")
    case True
    then show ?thesis by (simp add: computeFee_def computeFee_spec_def Let_def m)
  next
    case False
    then have "computeFee st ms
        = js_int (basePrice ?f + js_int (Math_ceil_div (js_int (?m - baseMinutes ?f)) 60
                                         * hourlyAfter ?f))"
      by (simp add: computeFee_def Let_def m)
    also have "\<dots> = basePrice ?f + ?h * hourlyAfter ?f"
      by (simp only: e h p t)
    also have "\<dots> = computeFee_spec ?f ms"
      using False by (simp add: computeFee_spec_def Let_def)
    finally show ?thesis .
  qed
qed

lemma computeFee_spec_div:
  "computeFee_spec f ms =
     (let minutes = - ((- ms) div 60000)
      in if minutes \<le> baseMinutes f then basePrice f
         else basePrice f + - ((- (minutes - baseMinutes f)) div 60) * hourlyAfter f)"
proof -
  have c: "\<lceil>real_of_int a / real_of_int b\<rceil> = - ((- a) div b)" for a b :: int
  proof -
    have "\<lceil>real_of_int a / real_of_int b\<rceil> = - \<lfloor>real_of_int (- a) / real_of_int b\<rfloor>"
      by (simp add: ceiling_def)
    also have "\<dots> = - ((- a) div b)" by (simp only: floor_divide_of_int_eq)
    finally show ?thesis .
  qed
  from c [of ms 60000] c [of "- ((- ms) div 60000) - baseMinutes f" 60]
  show ?thesis by (simp add: computeFee_spec_def Let_def)
qed

lemma ceiling_div_bounds:
  fixes a b :: int
  assumes "0 < b"
  shows "a \<le> \<lceil>real_of_int a / real_of_int b\<rceil> * b
         \<and> \<lceil>real_of_int a / real_of_int b\<rceil> * b < a + b"
proof -
  let ?c = "\<lceil>real_of_int a / real_of_int b\<rceil>"
  from assms have bpos: "0 < real_of_int b" by simp
  have "real_of_int a / real_of_int b \<le> real_of_int ?c" by (rule le_of_int_ceiling)
  with bpos have "real_of_int a \<le> real_of_int ?c * real_of_int b"
    by (simp only: pos_divide_le_eq)
  then have "real_of_int a \<le> real_of_int (?c * b)" by simp
  then have 1: "a \<le> ?c * b" by (simp only: of_int_le_iff)
  have "real_of_int ?c - 1 < real_of_int a / real_of_int b" by linarith
  with bpos have "(real_of_int ?c - 1) * real_of_int b < real_of_int a"
    by (simp only: pos_less_divide_eq)
  then have "real_of_int (?c * b) < real_of_int (a + b)" by (simp add: algebra_simps)
  then have 2: "?c * b < a + b" by (simp only: of_int_less_iff)
  from 1 2 show ?thesis ..
qed

lemma computeFee_safe_default:
  assumes "safe ms"
  shows "computeFee STATE0 ms = computeFee_spec (fee_c (config STATE0)) ms"
proof -
  let ?m = "\<lceil>real_of_int ms / 60000\<rceil>"
  let ?h = "\<lceil>real_of_int (?m - 30) / 60\<rceil>"
  have f: "baseMinutes (fee_c (config STATE0)) = 30" "basePrice (fee_c (config STATE0)) = 20"
    "hourlyAfter (fee_c (config STATE0)) = 50"
    by (simp_all add: STATE0_def)
  from assms have s: "- 9007199254740992 < ms" "ms < 9007199254740992"
    by (simp_all add: safe_def)
  from ceiling_div_bounds [of 60000 ms]
  have m: "ms \<le> ?m * 60000" "?m * 60000 < ms + 60000" by simp_all
  from ceiling_div_bounds [of 60 "?m - 30"]
  have h: "?m - 30 \<le> ?h * 60" "?h * 60 < ?m - 30 + 60" by simp_all
  from s m have 1: "safe (?m - 30)" by (simp add: safe_def)
  from s m h have 2: "safe (?h * 50)" by (simp add: safe_def)
  from s m h have 3: "safe (20 + ?h * 50)" by (simp add: safe_def)
  from computeFee_safe [of ms STATE0] assms 1 2 3 show ?thesis by (simp add: f)
qed

text \<open>
  C2, as the code has it. For a duration that is a safe integer (below \<open>2^53\<close> in absolute
  value), and a configuration under which the numbers of the rule stay safe integers,
  \<open>computeFee\<close> rounds the duration up to whole minutes, charges the base price up to the base
  minutes and otherwise the base price plus the hourly rate for every started hour beyond
  them; the default configuration is such a configuration for every safe duration, and under
  it the fees of 0, 30, 31, 90 and 91 minutes are 20, 20, 70, 70 and 120.
\<close>

theorem C2_computeFee:
  "(safe ms
      \<and> safe (\<lceil>real_of_int ms / 60000\<rceil> - baseMinutes (fee_c (config st)))
      \<and> safe (\<lceil>real_of_int (\<lceil>real_of_int ms / 60000\<rceil> - baseMinutes (fee_c (config st))) / 60\<rceil>
               * hourlyAfter (fee_c (config st)))
      \<and> safe (basePrice (fee_c (config st))
               + \<lceil>real_of_int (\<lceil>real_of_int ms / 60000\<rceil> - baseMinutes (fee_c (config st))) / 60\<rceil>
                 * hourlyAfter (fee_c (config st)))
     \<longrightarrow> computeFee st ms = computeFee_spec (fee_c (config st)) ms)
   \<and> (safe ms \<longrightarrow> computeFee STATE0 ms = computeFee_spec (fee_c (config STATE0)) ms)
   \<and> computeFee STATE0 0 = 20
   \<and> computeFee STATE0 (30 * 60000) = 20
   \<and> computeFee STATE0 (31 * 60000) = 70
   \<and> computeFee STATE0 (90 * 60000) = 70
   \<and> computeFee STATE0 (91 * 60000) = 120"
proof -
  have f: "baseMinutes (fee_c (config STATE0)) = 30" "basePrice (fee_c (config STATE0)) = 20"
    "hourlyAfter (fee_c (config STATE0)) = 50"
    by (simp_all add: STATE0_def)
  have v0: "computeFee STATE0 0 = 20"
    by (simp add: computeFee_safe_default safe_def computeFee_spec_div f)
  have v30: "computeFee STATE0 (30 * 60000) = 20"
    by (simp add: computeFee_safe_default safe_def computeFee_spec_div f)
  have v31: "computeFee STATE0 (31 * 60000) = 70"
    by (simp add: computeFee_safe_default safe_def computeFee_spec_div f)
  have v90: "computeFee STATE0 (90 * 60000) = 70"
    by (simp add: computeFee_safe_default safe_def computeFee_spec_div f)
  have v91: "computeFee STATE0 (91 * 60000) = 120"
    by (simp add: computeFee_safe_default safe_def computeFee_spec_div f)
  from computeFee_safe [of ms st] computeFee_safe_default [of ms] v0 v30 v31 v90 v91
  show ?thesis by blast
qed

theorem C2_computeFee_witness:
  "safe 2000000
   \<and> computeFee STATE0 2000000 = computeFee_spec (fee_c (config STATE0)) 2000000
   \<and> computeFee_spec (fee_c (config STATE0)) 2000000 = 70"
proof -
  have s: "safe 2000000" by (simp add: safe_def)
  have f: "baseMinutes (fee_c (config STATE0)) = 30" "basePrice (fee_c (config STATE0)) = 20"
    "hourlyAfter (fee_c (config STATE0)) = 50"
    by (simp_all add: STATE0_def)
  have c: "\<lceil>real_of_int 2000000 / 60000\<rceil> = 34"
    "\<lceil>real_of_int (34 - 30) / 60\<rceil> = 1"
    by (rule ceiling_unique; simp)+
  have sp: "computeFee_spec (fee_c (config STATE0)) 2000000 = 70"
    by (simp add: computeFee_spec_div f)
  have h: "safe (\<lceil>real_of_int 2000000 / 60000\<rceil> - baseMinutes (fee_c (config STATE0)))
      \<and> safe (\<lceil>real_of_int (\<lceil>real_of_int 2000000 / 60000\<rceil> - baseMinutes (fee_c (config STATE0))) / 60\<rceil>
               * hourlyAfter (fee_c (config STATE0)))
      \<and> safe (basePrice (fee_c (config STATE0))
               + \<lceil>real_of_int (\<lceil>real_of_int 2000000 / 60000\<rceil> - baseMinutes (fee_c (config STATE0))) / 60\<rceil>
                 * hourlyAfter (fee_c (config STATE0)))"
    by (simp only: f c) (simp add: safe_def)
  from C2_computeFee [of 2000000 STATE0] s h
  have "computeFee STATE0 2000000 = computeFee_spec (fee_c (config STATE0)) 2000000" by blast
  with s sp show ?thesis by blast
qed

text \<open>
  The claim as stated has no bound on the duration. The integer 1055531162665800064 is a
  double (it is \<open>8246337208326563 * 128\<close>); divided by 60000 it gives 17592186044430 and
  64/60000, which rounds to the double 17592186044430, so the code counts one minute less
  than the rule and charges 14660155037020 where the rule gives 14660155037070.
\<close>

theorem C2_counterexample:
  "computeFee STATE0 1055531162665800064 = 14660155037020
   \<and> computeFee_spec (fee_c (config STATE0)) 1055531162665800064 = 14660155037070"
proof -
  have f: "baseMinutes (fee_c (config STATE0)) = 30" "basePrice (fee_c (config STATE0)) = 20"
    "hourlyAfter (fee_c (config STATE0)) = 50"
    by (simp_all add: STATE0_def)
  have m: "Math_ceil_div 1055531162665800064 60000 = 17592186044430"
    by (simp add: Math_ceil_div_def round_double_def binade_def ties_even_def Let_def
        compute_bitlen power_int_def power_divide)
  have e: "js_int 17592186044400 = 17592186044400"
    by (rule js_int_safe) (simp add: safe_def)
  have h: "Math_ceil_div 17592186044400 60 = 293203100740"
    by (simp add: Math_ceil_div_safe safe_def ceiling_unique)
  have p: "js_int 14660155037000 = 14660155037000"
    by (rule js_int_safe) (simp add: safe_def)
  have t: "js_int 14660155037020 = 14660155037020"
    by (rule js_int_safe) (simp add: safe_def)
  have code: "computeFee STATE0 1055531162665800064 = 14660155037020"
    by (simp add: computeFee_def Let_def f m e h p t)
  have spec: "computeFee_spec (fee_c (config STATE0)) 1055531162665800064 = 14660155037070"
    by (simp add: computeFee_spec_div f)
  from code spec show ?thesis ..
qed

section \<open>Allocation\<close>

text \<open>
  C1. When a free slot of the requested category exists, \<open>nearestEmptySlot\<close> picks a free
  slot of that category whose id is the smallest among them; when none exists but some slot
  is free, it picks a free slot whose id is the smallest among all free slots; when no slot is
  free it returns nothing, and the entry handler then shows the error toast and leaves the
  whole world (slots, sessions, ledger, stored snapshot) as it was. The slot picked is the
  one the handler occupies.
\<close>

theorem C1_allocation:
  "((\<exists>s\<in>set (slots (STATE w)). \<not> occupied s \<and> type_s s = Some ty)
      \<longrightarrow> (\<exists>r. nearestEmptySlot (STATE w) ty = Some r \<and> r < length (slots (STATE w))
             \<and> \<not> occupied (slots (STATE w) ! r) \<and> type_s (slots (STATE w) ! r) = Some ty
             \<and> (\<forall>s\<in>set (slots (STATE w)). \<not> occupied s \<and> type_s s = Some ty
                    \<longrightarrow> id_s (slots (STATE w) ! r) \<le> id_s s)))
   \<and> (\<not> (\<exists>s\<in>set (slots (STATE w)). \<not> occupied s \<and> type_s s = Some ty)
        \<and> (\<exists>s\<in>set (slots (STATE w)). \<not> occupied s)
      \<longrightarrow> (\<exists>r. nearestEmptySlot (STATE w) ty = Some r \<and> r < length (slots (STATE w))
             \<and> \<not> occupied (slots (STATE w) ! r)
             \<and> (\<forall>s\<in>set (slots (STATE w)). \<not> occupied s
                    \<longrightarrow> id_s (slots (STATE w) ! r) \<le> id_s s)))
   \<and> ((\<forall>s\<in>set (slots (STATE w)). occupied s)
      \<longrightarrow> nearestEmptySlot (STATE w) ty = None
          \<and> entrySubmit w num own ty now = ([ToastError ''No empty slot available''], w))
   \<and> (nearestEmptySlot (STATE w) ty = Some r
      \<longrightarrow> occupied (slots (STATE (snd (entrySubmit w num own ty now))) ! r)
          \<and> vehicle (slots (STATE (snd (entrySubmit w num own ty now))) ! r)
              = Some \<lparr> number = num, owner = own, type_v = ty \<rparr>)"
proof (intro conjI impI)
  assume "\<exists>s\<in>set (slots (STATE w)). \<not> occupied s \<and> type_s s = Some ty"
  then have "\<exists>q<length (slots (STATE w)). \<not> occupied (slots (STATE w) ! q)
               \<and> type_s (slots (STATE w) ! q) = Some ty"
    by (simp only: ex_nth_set [of "slots (STATE w)" "\<lambda>s. \<not> occupied s \<and> type_s s = Some ty"])
  from nearestEmptySlot_sameType [OF this]
  show "\<exists>r. nearestEmptySlot (STATE w) ty = Some r \<and> r < length (slots (STATE w))
             \<and> \<not> occupied (slots (STATE w) ! r) \<and> type_s (slots (STATE w) ! r) = Some ty
             \<and> (\<forall>s\<in>set (slots (STATE w)). \<not> occupied s \<and> type_s s = Some ty
                    \<longrightarrow> id_s (slots (STATE w) ! r) \<le> id_s s)"
    by (simp only: all_nth_set [of "slots (STATE w)"
          "\<lambda>s. \<not> occupied s \<and> type_s s = Some ty \<longrightarrow> id_s (slots (STATE w) ! r) \<le> id_s s" for r])
next
  assume a: "\<not> (\<exists>s\<in>set (slots (STATE w)). \<not> occupied s \<and> type_s s = Some ty)
        \<and> (\<exists>s\<in>set (slots (STATE w)). \<not> occupied s)"
  then have 1: "\<not> (\<exists>q<length (slots (STATE w)). \<not> occupied (slots (STATE w) ! q)
               \<and> type_s (slots (STATE w) ! q) = Some ty)"
    using ex_nth_set [of "slots (STATE w)" "\<lambda>s. \<not> occupied s \<and> type_s s = Some ty"]
    by blast
  from a have 2: "\<exists>q<length (slots (STATE w)). \<not> occupied (slots (STATE w) ! q)"
    using ex_nth_set [of "slots (STATE w)" "\<lambda>s. \<not> occupied s"] by blast
  from nearestEmptySlot_anyType [OF 1 2]
  show "\<exists>r. nearestEmptySlot (STATE w) ty = Some r \<and> r < length (slots (STATE w))
             \<and> \<not> occupied (slots (STATE w) ! r)
             \<and> (\<forall>s\<in>set (slots (STATE w)). \<not> occupied s
                    \<longrightarrow> id_s (slots (STATE w) ! r) \<le> id_s s)"
    by (simp only: all_nth_set [of "slots (STATE w)"
          "\<lambda>s. \<not> occupied s \<longrightarrow> id_s (slots (STATE w) ! r) \<le> id_s s" for r])
next
  assume full: "\<forall>s\<in>set (slots (STATE w)). occupied s"
  then have "\<forall>q<length (slots (STATE w)). occupied (slots (STATE w) ! q)" by simp
  then show none: "nearestEmptySlot (STATE w) ty = None"
    by (rule nearestEmptySlot_full)
  then show "entrySubmit w num own ty now = ([ToastError ''No empty slot available''], w)"
    by (rule entrySubmit_None)
next
  assume some: "nearestEmptySlot (STATE w) ty = Some r"
  then have "r < length (slots (STATE w))" by (simp add: nearestEmptySlot_Some)
  then show "occupied (slots (STATE (snd (entrySubmit w num own ty now))) ! r)"
    and "vehicle (slots (STATE (snd (entrySubmit w num own ty now))) ! r)
              = Some \<lparr> number = num, owner = own, type_v = ty \<rparr>"
    by (simp_all add: entrySubmit_Some [OF some])
qed

theorem C1_allocation_witness:
  "nearestEmptySlot (STATE lot3) ''car'' = Some 2
   \<and> \<not> occupied (slots (STATE lot3) ! 2) \<and> type_s (slots (STATE lot3) ! 2) = Some ''car''
   \<and> nearestEmptySlot (STATE lot3) ''truck'' = Some 0
   \<and> \<not> occupied (slots (STATE lot3) ! 0)
   \<and> list_all occupied (slots (STATE lot_full))
   \<and> nearestEmptySlot (STATE lot_full) ''car'' = None
   \<and> entrySubmit lot_full ''TN 38 AB 1234'' ''Priya'' ''car'' 5000
       = ([ToastError ''No empty slot available''], lot_full)
   \<and> occupied (slots (STATE (snd (entrySubmit lot3 ''TN 01 A 123'' ''Asha'' ''car'' 5000))) ! 2)"
proof -
  have h1: "\<exists>s\<in>set (slots (STATE lot3)). \<not> occupied s \<and> type_s s = Some ''car''"
    by (simp add: lot3_def)
  have h2: "\<not> (\<exists>s\<in>set (slots (STATE lot3)). \<not> occupied s \<and> type_s s = Some ''truck'')
            \<and> (\<exists>s\<in>set (slots (STATE lot3)). \<not> occupied s)"
    by (simp add: lot3_def)
  have h3: "\<forall>s\<in>set (slots (STATE lot_full)). occupied s"
    by (simp add: lot_full_def)
  have h4: "nearestEmptySlot (STATE lot3) ''car'' = Some 2"
    by (simp add: nearestEmptySlot_def lot3_def Let_def upt_rec)
  have h5: "nearestEmptySlot (STATE lot3) ''truck'' = Some 0"
    by (simp add: nearestEmptySlot_def lot3_def Let_def upt_rec)
  from C1_allocation [of lot3 "''car''" "''TN 01 A 123''" "''Asha''" 5000 2] h1 h4
  have a: "\<not> occupied (slots (STATE lot3) ! 2) \<and> type_s (slots (STATE lot3) ! 2) = Some ''car''
          \<and> occupied (slots (STATE (snd (entrySubmit lot3 ''TN 01 A 123'' ''Asha'' ''car'' 5000))) ! 2)"
    by auto
  from C1_allocation [of lot3 "''truck''" "''TN 01 A 123''" "''Asha''" 5000 0] h2 h5
  have b: "\<not> occupied (slots (STATE lot3) ! 0)"
    by auto
  from C1_allocation [of lot_full "''car''" "''TN 38 AB 1234''" "''Priya''" 5000 0] h3
  have c: "nearestEmptySlot (STATE lot_full) ''car'' = None
     \<and> entrySubmit lot_full ''TN 38 AB 1234'' ''Priya'' ''car'' 5000
       = ([ToastError ''No empty slot available''], lot_full)"
    by blast
  from h3 have d: "list_all occupied (slots (STATE lot_full))"
    by (simp add: list_all_iff)
  from a b c d h4 h5 show ?thesis by blast
qed

section \<open>Initialisation of the registry\<close>

text \<open>
  C9. On an empty registry \<open>initSlots\<close> creates exactly \<open>totalSlots\<close> slots, with the ids 1 to
  \<open>totalSlots\<close> in order and all free, and the slot with id \<open>i\<close> gets the category
  \<open>typesByRow[i mod length]\<close>, so that with the default list slot 1 gets the second category.
  Afterwards \<open>initSlots\<close> changes nothing, an entry or a removal keeps the number of slots,
  and in every world the program reaches the number of slots is the configured one.
\<close>

theorem C9_initSlots:
  "(slots st = [] \<longrightarrow>
       slots (initSlots st) = map (newSlot (config st)) [1..totalSlots (config st)]
     \<and> length (slots (initSlots st)) = nat (totalSlots (config st))
     \<and> map id_s (slots (initSlots st)) = [1..totalSlots (config st)]
     \<and> (\<forall>s\<in>set (slots (initSlots st)). \<not> occupied s \<and> vehicle s = None \<and> entryTime s = None)
     \<and> (\<forall>s\<in>set (slots (initSlots st)). typesByRow (config st) \<noteq> [] \<longrightarrow>
            type_s s = Some (typesByRow (config st) ! (nat (id_s s) mod length (typesByRow (config st))))))
   \<and> type_s (slots (initSlots STATE0) ! 0) = Some (typesByRow (config STATE0) ! 1)
   \<and> id_s (slots (initSlots STATE0) ! 0) = 1
   \<and> (slots st \<noteq> [] \<longrightarrow> initSlots st = st)
   \<and> length (slots (STATE (snd (entrySubmit w num own ty now)))) = length (slots (STATE w))
   \<and> (removeVehicleFlow w k now c = Inr (u, w') \<longrightarrow> length (slots (STATE w')) = length (slots (STATE w)))
   \<and> (reachable w \<longrightarrow> length (slots (STATE w)) = nat (totalSlots (config STATE0)))"
proof -
  have a: "slots (initSlots st) = map (newSlot (config st)) [1..totalSlots (config st)]"
    if "slots st = []"
    using that by (rule slots_initSlots)
  have b: "length (slots (initSlots st)) = nat (totalSlots (config st))" if "slots st = []"
    using a [OF that] by simp
  have c: "map id_s (slots (initSlots st)) = [1..totalSlots (config st)]" if "slots st = []"
    using a [OF that] by (simp add: newSlot_def comp_def)
  have d: "\<forall>s\<in>set (slots (initSlots st)). \<not> occupied s \<and> vehicle s = None \<and> entryTime s = None"
    if "slots st = []"
    using a [OF that] by (auto simp: newSlot_def)
  have e: "\<forall>s\<in>set (slots (initSlots st)). typesByRow (config st) \<noteq> [] \<longrightarrow>
            type_s s = Some (typesByRow (config st) ! (nat (id_s s) mod length (typesByRow (config st))))"
    if "slots st = []"
    using a [OF that] by (auto simp: newSlot_def rowType_nth)
  have cfg: "totalSlots (config STATE0) = 48"
    "typesByRow (config STATE0) = [''car'', ''bike'', ''truck'']"
    by (simp_all add: STATE0_def)
  have "slots (initSlots STATE0) = map (newSlot (config STATE0)) [1..totalSlots (config STATE0)]"
    by (rule slots_initSlots) (simp add: STATE0_def)
  then have f: "slots (initSlots STATE0) ! 0 = newSlot (config STATE0) 1"
    by (simp add: cfg upto_rec1 [of 1 48])
  have g: "type_s (slots (initSlots STATE0) ! 0) = Some (typesByRow (config STATE0) ! 1)"
    "id_s (slots (initSlots STATE0) ! 0) = 1"
    by (simp_all add: f newSlot_def rowType_def cfg)
  have h: "initSlots st = st" if "slots st \<noteq> []"
    using that by (simp add: initSlots_def)
  from a b c d e g h slots_entrySubmit_length [of w num own ty now]
    slots_removeVehicleFlow_length [of w k now c u w'] reachable_length [of w]
  show ?thesis by blast
qed

theorem C9_initSlots_witness:
  "slots STATE0 = []
   \<and> length (slots (initSlots STATE0)) = 48
   \<and> map id_s (slots (initSlots STATE0)) = [1..48]
   \<and> list_all (\<lambda>s. \<not> occupied s) (slots (initSlots STATE0))
   \<and> map type_s (take 4 (slots (initSlots STATE0)))
       = [Some ''bike'', Some ''truck'', Some ''car'', Some ''bike'']
   \<and> slots (STATE lot3) \<noteq> [] \<and> initSlots (STATE lot3) = STATE lot3
   \<and> removeVehicleFlow lot3 2 5000 False = Inr ([Confirm ''Remove vehicle?''], lot3)
   \<and> reachable (boot None) \<and> length (slots (STATE (boot None))) = 48"
proof -
  have e: "slots STATE0 = []" by (simp add: STATE0_def)
  have c: "totalSlots (config STATE0) = 48" "typesByRow (config STATE0) = [''car'', ''bike'', ''truck'']"
    by (simp_all add: STATE0_def)
  have n: "slots (STATE lot3) \<noteq> []" by (simp add: lot3_def)
  have r: "removeVehicleFlow lot3 2 5000 False = Inr ([Confirm ''Remove vehicle?''], lot3)"
    by (simp add: removeVehicleFlow_def lot3_def Let_def)
  have b: "reachable (boot None)" by (rule reachable.first_visit)
  note inst = C9_initSlots [of STATE0 lot3 "''TN 01 A 123''" "''Asha''" "''car''" 5000 2 False
      "[Confirm ''Remove vehicle?'']" lot3]
  from inst e have "length (slots (initSlots STATE0)) = nat (totalSlots (config STATE0))"
    and "map id_s (slots (initSlots STATE0)) = [1..totalSlots (config STATE0)]"
    by blast+
  then have 1: "length (slots (initSlots STATE0)) = 48"
    "map id_s (slots (initSlots STATE0)) = [1..48]" by (simp_all add: c)
  from inst e have "\<forall>s\<in>set (slots (initSlots STATE0)). \<not> occupied s" by blast
  then have 2: "list_all (\<lambda>s. \<not> occupied s) (slots (initSlots STATE0))" by (simp add: list_all_iff)
  from inst e have "slots (initSlots STATE0) = map (newSlot (config STATE0)) [1..totalSlots (config STATE0)]"
    by blast
  then have 3: "map type_s (take 4 (slots (initSlots STATE0)))
       = [Some ''bike'', Some ''truck'', Some ''car'', Some ''bike'']"
    by (simp add: c newSlot_def rowType_def upto_rec1 [of 1 48] upto_rec1 [of 2 48]
        upto_rec1 [of 3 48] upto_rec1 [of 4 48] take_Cons')
  from C9_initSlots [of "STATE lot3"] n have 4: "initSlots (STATE lot3) = STATE lot3" by blast
  from C9_initSlots [of STATE0 "boot None"] b
  have "length (slots (STATE (boot None))) = nat (totalSlots (config STATE0))"
    by blast
  then have 5: "length (slots (STATE (boot None))) = 48" by (simp add: c)
  from e 1 2 3 n 4 r b 5 show ?thesis by blast
qed

section \<open>Entry followed by removal\<close>

text \<open>
  C3. In a registry whose ids are pairwise different (every reachable registry is), when the
  entry handler puts a vehicle on slot \<open>r\<close> and the slot is then released by its id with the
  dialog confirmed, the slot is free again with vehicle and entry time cleared, and the
  ledger is the former ledger with exactly one record put in front of it; the record carries
  the plate, owner and category of the vehicle and the id of the slot.
\<close>

theorem C3_allocate_then_release:
  assumes "distinct (map id_s (slots (STATE w)))"
    and "nearestEmptySlot (STATE w) ty = Some r"
  shows "\<exists>u w2.
      occupied (slots (STATE (snd (entrySubmit w num own ty now))) ! r)
    \<and> history (STATE (snd (entrySubmit w num own ty now))) = history (STATE w)
    \<and> removeVehicleFlow (snd (entrySubmit w num own ty now)) (id_s (slots (STATE w) ! r)) later True
        = Inr (u, w2)
    \<and> \<not> occupied (slots (STATE w2) ! r)
    \<and> vehicle (slots (STATE w2) ! r) = None
    \<and> entryTime (slots (STATE w2) ! r) = None
    \<and> id_s (slots (STATE w2) ! r) = id_s (slots (STATE w) ! r)
    \<and> type_s (slots (STATE w2) ! r) = type_s (slots (STATE w) ! r)
    \<and> history (STATE w2) =
         \<lparr> vehicleNumber = num, owner_h = own, type_h = ty, slotId = id_s (slots (STATE w) ! r),
           entryTime_h = Some now, exitTime = later, durationMs = later - now,
           fee = computeFee (STATE w) (later - now) \<rparr> # history (STATE w)
    \<and> length (history (STATE w2)) = length (history (STATE w)) + 1"
proof -
  let ?ss = "slots (STATE w)"
  let ?s = "(?ss ! r)\<lparr> occupied := True,
               vehicle := Some \<lparr> number = num, owner = own, type_v = ty \<rparr>,
               entryTime := Some now \<rparr>"
  let ?w1 = "snd (entrySubmit w num own ty now)"
  from assms(2) have r: "r < length ?ss" by (simp add: nearestEmptySlot_Some)
  have w1: "?w1 = save (w\<lparr>STATE := (STATE w)\<lparr>slots := ?ss[r := ?s]\<rparr>\<rparr>)"
    by (simp add: entrySubmit_Some [OF assms(2)])
  have sl: "slots (STATE ?w1) = ?ss[r := ?s]" and hi: "history (STATE ?w1) = history (STATE w)"
    and cf: "config (STATE ?w1) = config (STATE w)"
    by (simp_all add: w1)
  have at: "slots (STATE ?w1) ! r = ?s" using r by (simp add: sl)
  have ids: "map id_s (slots (STATE ?w1)) = map id_s ?ss"
    unfolding sl by (rule map_update_same) simp
  then have "distinct (map id_s (slots (STATE ?w1)))" using assms(1) by simp
  moreover have "r < length (slots (STATE ?w1))" using r by (simp add: sl)
  ultimately have "find_pos (\<lambda>x. id_s x = id_s (slots (STATE ?w1) ! r)) (slots (STATE ?w1)) = Some r"
    by (rule find_pos_distinct)
  then have fp: "find_pos (\<lambda>x. id_s x = id_s (?ss ! r)) (slots (STATE ?w1)) = Some r"
    by (simp add: at)
  have oc: "occupied (slots (STATE ?w1) ! r)"
    and ve: "vehicle (slots (STATE ?w1) ! r) = Some \<lparr> number = num, owner = own, type_v = ty \<rparr>"
    by (simp_all add: at)
  note rm = removeVehicleFlow_confirm [OF fp oc ve, of later]
  have fee: "computeFee (STATE ?w1) ms = computeFee (STATE w) ms" for ms
    by (rule computeFee_config) (rule cf)
  let ?w2 = "snd (projr (removeVehicleFlow ?w1 (id_s (?ss ! r)) later True))"
  let ?u = "fst (projr (removeVehicleFlow ?w1 (id_s (?ss ! r)) later True))"
  have res: "removeVehicleFlow ?w1 (id_s (?ss ! r)) later True = Inr (?u, ?w2)"
    by (simp add: rm)
  have s2: "slots (STATE ?w2) ! r = ?s\<lparr> occupied := False, vehicle := None, entryTime := None \<rparr>"
    using r by (simp add: rm at sl)
  have h2: "history (STATE ?w2) =
         \<lparr> vehicleNumber = num, owner_h = own, type_h = ty, slotId = id_s (?ss ! r),
           entryTime_h = Some now, exitTime = later, durationMs = later - now,
           fee = computeFee (STATE w) (later - now) \<rparr> # history (STATE w)"
    by (simp add: rm at hi fee)
  from oc hi res s2 h2 show ?thesis
    by (intro exI [of _ ?u] exI [of _ ?w2]) simp
qed

theorem C3_allocate_then_release_witness:
  "distinct (map id_s (slots (STATE lot3)))
   \<and> nearestEmptySlot (STATE lot3) ''car'' = Some 2
   \<and> (\<exists>u w2. removeVehicleFlow (snd (entrySubmit lot3 ''TN 01 A 123'' ''Asha'' ''car'' 5000)) 3
                 2000000 True = Inr (u, w2)
         \<and> \<not> occupied (slots (STATE w2) ! 2)
         \<and> history (STATE w2) =
             [\<lparr> vehicleNumber = ''TN 01 A 123'', owner_h = ''Asha'', type_h = ''car'', slotId = 3,
                entryTime_h = Some 5000, exitTime = 2000000, durationMs = 1995000, fee = 70 \<rparr>])"
proof -
  have d: "distinct (map id_s (slots (STATE lot3)))" by (simp add: lot3_def)
  have n: "nearestEmptySlot (STATE lot3) ''car'' = Some 2"
    by (simp add: nearestEmptySlot_def lot3_def Let_def upt_rec)
  have i: "id_s (slots (STATE lot3) ! 2) = 3" "history (STATE lot3) = []"
    by (simp_all add: lot3_def)
  have "config (STATE lot3) = config STATE0" by (simp add: lot3_def)
  then have "computeFee (STATE lot3) 1995000 = computeFee STATE0 1995000"
    by (rule computeFee_config)
  then have "computeFee (STATE lot3) (2000000 - 5000) = computeFee STATE0 1995000"
    by simp
  also have "\<dots> = computeFee_spec (fee_c (config STATE0)) 1995000"
    by (rule computeFee_safe_default) (simp add: safe_def)
  also have "\<dots> = 70"
    by (simp add: computeFee_spec_div STATE0_def)
  finally have f: "computeFee (STATE lot3) (2000000 - 5000) = 70" .
  from C3_allocate_then_release [OF d n, of "''TN 01 A 123''" "''Asha''" 5000 2000000]
  show ?thesis unfolding i f using d n by auto
qed

section \<open>Removal of a slot that is unknown or empty\<close>

text \<open>
  C4, as the code has it. Releasing an id that no slot carries, or the id of a slot that is
  not occupied, returns at once: nothing is shown, no error is raised, the two cases give the
  same outcome, and the world (slots, ledger, timers, stored snapshot) is left as it was.
\<close>

theorem C4_release_noop:
  assumes "find_pos (\<lambda>x. id_s x = k) (slots (STATE w)) = None
           \<or> (\<exists>r. find_pos (\<lambda>x. id_s x = k) (slots (STATE w)) = Some r
                    \<and> \<not> occupied (slots (STATE w) ! r))"
  shows "removeVehicleFlow w k now c = Inr ([], w)
         \<and> \<not> signals_error (removeVehicleFlow w k now c)"
proof -
  from assms have "removeVehicleFlow w k now c = Inr ([], w)"
    by (auto simp: removeVehicleFlow_unknown removeVehicleFlow_empty)
  then show ?thesis by simp
qed

theorem C4_release_noop_witness:
  "find_pos (\<lambda>x. id_s x = 99) (slots (STATE lot3)) = None
   \<and> removeVehicleFlow lot3 99 5000 True = Inr ([], lot3)
   \<and> find_pos (\<lambda>x. id_s x = 1) (slots (STATE lot3)) = Some 0
   \<and> \<not> occupied (slots (STATE lot3) ! 0)
   \<and> removeVehicleFlow lot3 1 5000 True = Inr ([], lot3)"
proof -
  have a: "find_pos (\<lambda>x. id_s x = 99) (slots (STATE lot3)) = None"
    by (simp add: lot3_def)
  have b: "find_pos (\<lambda>x. id_s x = 1) (slots (STATE lot3)) = Some 0"
    "\<not> occupied (slots (STATE lot3) ! 0)"
    by (simp_all add: lot3_def)
  from C4_release_noop [of 99 lot3 5000 True] a
  have 1: "removeVehicleFlow lot3 99 5000 True = Inr ([], lot3)" by blast
  from C4_release_noop [of 1 lot3 5000 True] b
  have 2: "removeVehicleFlow lot3 1 5000 True = Inr ([], lot3)" by blast
  from a b 1 2 show ?thesis by blast
qed

text \<open>
  The claim as stated asks for a slot-not-found error in the first case and a
  slot-already-empty error in the second. On the three-slot lot, id 99 is unknown and slot 1
  is known and free: neither removal signals an error, and the two outcomes are equal.
\<close>

theorem C4_counterexample:
  "\<not> signals_error (removeVehicleFlow lot3 99 5000 True)
   \<and> \<not> signals_error (removeVehicleFlow lot3 1 5000 True)
   \<and> removeVehicleFlow lot3 99 5000 True = removeVehicleFlow lot3 1 5000 True"
  by (simp add: removeVehicleFlow_def lot3_def)

section \<open>What an entry and a removal leave alone\<close>

text \<open>
  C10. A removal that goes through (the slot is found, it is occupied and the dialog is
  confirmed) rewrites only the \<open>occupied\<close>, \<open>vehicle\<close> and \<open>entryTime\<close> fields of the slot it
  found and puts one record in front of the ledger: every other slot is unchanged, the
  former records follow in their order, and configuration and theme are untouched. Any other
  run of the removal that returns leaves the world as it was. An entry that finds a slot
  rewrites only those three fields of that slot and leaves the ledger unchanged.
\<close>

theorem C10_frame:
  "(find_pos (\<lambda>x. id_s x = k) (slots (STATE w)) = Some r \<and> occupied (slots (STATE w) ! r)
      \<and> vehicle (slots (STATE w) ! r) = Some v
     \<longrightarrow> (\<exists>u w' h. removeVehicleFlow w k now True = Inr (u, w')
           \<and> slots (STATE w') = (slots (STATE w))
                [r := (slots (STATE w) ! r)\<lparr> occupied := False, vehicle := None, entryTime := None \<rparr>]
           \<and> (\<forall>q. q \<noteq> r \<longrightarrow> slots (STATE w') ! q = slots (STATE w) ! q)
           \<and> length (slots (STATE w')) = length (slots (STATE w))
           \<and> history (STATE w') = h # history (STATE w)
           \<and> config (STATE w') = config (STATE w) \<and> theme (STATE w') = theme (STATE w)))
   \<and> (removeVehicleFlow w k now c = Inr (u, w') \<longrightarrow>
         w' = w \<or> (\<exists>r h. slots (STATE w') = (slots (STATE w))
                [r := (slots (STATE w) ! r)\<lparr> occupied := False, vehicle := None, entryTime := None \<rparr>]
              \<and> history (STATE w') = h # history (STATE w)))
   \<and> (nearestEmptySlot (STATE w) ty = Some r
     \<longrightarrow> slots (STATE (snd (entrySubmit w num own ty now))) = (slots (STATE w))
            [r := (slots (STATE w) ! r)\<lparr> occupied := True,
                     vehicle := Some \<lparr> number = num, owner = own, type_v = ty \<rparr>,
                     entryTime := Some now \<rparr>]
         \<and> (\<forall>q. q \<noteq> r \<longrightarrow> slots (STATE (snd (entrySubmit w num own ty now))) ! q
                               = slots (STATE w) ! q)
         \<and> history (STATE (snd (entrySubmit w num own ty now))) = history (STATE w)
         \<and> config (STATE (snd (entrySubmit w num own ty now))) = config (STATE w)
         \<and> theme (STATE (snd (entrySubmit w num own ty now))) = theme (STATE w)
         \<and> timers (STATE (snd (entrySubmit w num own ty now))) = timers (STATE w))
   \<and> (nearestEmptySlot (STATE w) ty = None \<longrightarrow> snd (entrySubmit w num own ty now) = w)"
proof (intro conjI impI)
  assume a: "find_pos (\<lambda>x. id_s x = k) (slots (STATE w)) = Some r \<and> occupied (slots (STATE w) ! r)
      \<and> vehicle (slots (STATE w) ! r) = Some v"
  then show "\<exists>u w' h. removeVehicleFlow w k now True = Inr (u, w')
           \<and> slots (STATE w') = (slots (STATE w))
                [r := (slots (STATE w) ! r)\<lparr> occupied := False, vehicle := None, entryTime := None \<rparr>]
           \<and> (\<forall>q. q \<noteq> r \<longrightarrow> slots (STATE w') ! q = slots (STATE w) ! q)
           \<and> length (slots (STATE w')) = length (slots (STATE w))
           \<and> history (STATE w') = h # history (STATE w)
           \<and> config (STATE w') = config (STATE w) \<and> theme (STATE w') = theme (STATE w)"
    by (simp add: removeVehicleFlow_confirm)
next
  assume "removeVehicleFlow w k now c = Inr (u, w')"
  then show "w' = w \<or> (\<exists>r h. slots (STATE w') = (slots (STATE w))
                [r := (slots (STATE w) ! r)\<lparr> occupied := False, vehicle := None, entryTime := None \<rparr>]
              \<and> history (STATE w') = h # history (STATE w))"
  proof (cases rule: removeVehicleFlow_Inr)
    case 1
    then show ?thesis by simp
  next
    case (2 r v)
    with \<open>removeVehicleFlow w k now c = Inr (u, w')\<close>
      removeVehicleFlow_confirm [OF 2(1,2,3), of now]
    show ?thesis by auto
  qed
next
  assume s: "nearestEmptySlot (STATE w) ty = Some r"
  show "slots (STATE (snd (entrySubmit w num own ty now))) = (slots (STATE w))
            [r := (slots (STATE w) ! r)\<lparr> occupied := True,
                     vehicle := Some \<lparr> number = num, owner = own, type_v = ty \<rparr>,
                     entryTime := Some now \<rparr>]"
    and "\<forall>q. q \<noteq> r \<longrightarrow> slots (STATE (snd (entrySubmit w num own ty now))) ! q
                               = slots (STATE w) ! q"
    and "history (STATE (snd (entrySubmit w num own ty now))) = history (STATE w)"
    and "config (STATE (snd (entrySubmit w num own ty now))) = config (STATE w)"
    and "theme (STATE (snd (entrySubmit w num own ty now))) = theme (STATE w)"
    and "timers (STATE (snd (entrySubmit w num own ty now))) = timers (STATE w)"
    by (simp_all add: entrySubmit_Some [OF s])
next
  assume "nearestEmptySlot (STATE w) ty = None"
  then show "snd (entrySubmit w num own ty now) = w" by (simp add: entrySubmit_None)
qed

theorem C10_frame_witness:
  "find_pos (\<lambda>x. id_s x = 2) (slots (STATE lot3)) = Some 1
   \<and> occupied (slots (STATE lot3) ! 1)
   \<and> (\<exists>u w' h. removeVehicleFlow lot3 2 5000 True = Inr (u, w')
          \<and> slots (STATE w') ! 0 = slots (STATE lot3) ! 0
          \<and> slots (STATE w') ! 2 = slots (STATE lot3) ! 2
          \<and> history (STATE w') = [h])
   \<and> nearestEmptySlot (STATE lot3) ''car'' = Some 2
   \<and> slots (STATE (snd (entrySubmit lot3 ''TN 01 A 123'' ''Asha'' ''car'' 5000))) ! 1
       = slots (STATE lot3) ! 1
   \<and> history (STATE (snd (entrySubmit lot3 ''TN 01 A 123'' ''Asha'' ''car'' 5000))) = []
   \<and> nearestEmptySlot (STATE lot_full) ''car'' = None
   \<and> snd (entrySubmit lot_full ''TN 01 A 123'' ''Asha'' ''car'' 5000) = lot_full"
proof -
  let ?v = "\<lparr> number = ''TN 38 AB 1234'', owner = ''Priya'', type_v = ''truck'' \<rparr>"
  have f: "find_pos (\<lambda>x. id_s x = 2) (slots (STATE lot3)) = Some 1"
    "occupied (slots (STATE lot3) ! 1)" "vehicle (slots (STATE lot3) ! 1) = Some ?v"
    "history (STATE lot3) = []"
    by (simp_all add: lot3_def)
  have n: "nearestEmptySlot (STATE lot3) ''car'' = Some 2"
    by (simp add: nearestEmptySlot_def lot3_def Let_def upt_rec)
  have m: "nearestEmptySlot (STATE lot_full) ''car'' = None"
    by (simp add: nearestEmptySlot_def lot_full_def Let_def upt_rec)
  from C10_frame [of 2 lot3 1 ?v 5000] f(1,2,3)
  have "\<exists>u w' h. removeVehicleFlow lot3 2 5000 True = Inr (u, w')
           \<and> (\<forall>q. q \<noteq> 1 \<longrightarrow> slots (STATE w') ! q = slots (STATE lot3) ! q)
           \<and> history (STATE w') = h # history (STATE lot3)"
    by blast
  then obtain u w' h where rm: "removeVehicleFlow lot3 2 5000 True = Inr (u, w')"
    and fr: "\<forall>q. q \<noteq> 1 \<longrightarrow> slots (STATE w') ! q = slots (STATE lot3) ! q"
    and hs: "history (STATE w') = [h]"
    unfolding f(4) by blast
  from fr have 1: "slots (STATE w') ! 0 = slots (STATE lot3) ! 0"
    "slots (STATE w') ! 2 = slots (STATE lot3) ! 2" by simp_all
  from C10_frame [of 2 lot3 1 ?v 5000 True u w' "''car''" "''TN 01 A 123''" "''Asha''"] rm
  have "w' = lot3 \<or> (\<exists>r h. history (STATE w') = h # history (STATE lot3))" by blast
  from C10_frame [of 2 lot3 2 ?v 5000 True u w' "''car''" "''TN 01 A 123''" "''Asha''"] n
  have 2: "slots (STATE (snd (entrySubmit lot3 ''TN 01 A 123'' ''Asha'' ''car'' 5000))) ! 1
       = slots (STATE lot3) ! 1"
    "history (STATE (snd (entrySubmit lot3 ''TN 01 A 123'' ''Asha'' ''car'' 5000))) = []"
    using f(4) by simp_all
  from C10_frame [of 2 lot_full 1 ?v 5000 True u w' "''car''" "''TN 01 A 123''" "''Asha''"] m
  have 3: "snd (entrySubmit lot_full ''TN 01 A 123'' ''Asha'' ''car'' 5000) = lot_full" by blast
  from f(1,2) rm 1 hs n 2 m 3 show ?thesis by blast
qed

section \<open>The invariant of the slots\<close>

text \<open>
  C5. A slot is occupied exactly when it carries a vehicle and an entry time. This holds of
  the slots \<open>initSlots\<close> creates, it is kept by an entry, by a removal, by a reset and by
  loading what \<open>save\<close> wrote, and so it holds in every world the program reaches; the ids and
  the categories of the slots are the same list after an entry or a removal, are restored as
  they were by loading a saved snapshot, and in every reachable world they are those of the
  first initialisation.
\<close>

theorem C5_session_invariant:
  "(reachable w \<longrightarrow>
       list_all session_inv (slots (STATE w))
     \<and> map id_s (slots (STATE w)) = map id_s (slots (STATE (boot None)))
     \<and> map type_s (slots (STATE w)) = map type_s (slots (STATE (boot None))))
   \<and> (slots st = [] \<longrightarrow> list_all session_inv (slots (initSlots st)))
   \<and> (list_all session_inv (slots (STATE w)) \<longrightarrow>
         list_all session_inv (slots (STATE (snd (entrySubmit w num own ty now))))
       \<and> (removeVehicleFlow w k now c = Inr (u, w') \<longrightarrow> list_all session_inv (slots (STATE w')))
       \<and> list_all session_inv (slots (STATE (load (save w)))))
   \<and> list_all session_inv (slots (STATE (resetData w)))
   \<and> map id_s (slots (STATE (snd (entrySubmit w num own ty now)))) = map id_s (slots (STATE w))
   \<and> map type_s (slots (STATE (snd (entrySubmit w num own ty now)))) = map type_s (slots (STATE w))
   \<and> (removeVehicleFlow w k now c = Inr (u, w') \<longrightarrow>
         map id_s (slots (STATE w')) = map id_s (slots (STATE w))
       \<and> map type_s (slots (STATE w')) = map type_s (slots (STATE w)))
   \<and> slots (STATE (load (save w))) = slots (STATE w)"
proof -
  have "(save w)\<lparr>STATE := STATE w\<rparr> = save w" by (simp add: save_def)
  with load_save [where w = w and st' = "STATE w"]
  have ls: "slots (STATE (load (save w))) = slots (STATE w)" by simp
  have rs: "list_all session_inv (slots (STATE (resetData w)))"
    by (simp add: resetData_def session_inv_initSlots)
  from reachable_registry [of w] session_inv_initSlots [of st]
    session_inv_entrySubmit [of w num own ty now]
    session_inv_removeVehicleFlow [of w k now c u w'] ls rs
    ids_entrySubmit [of w num own ty now] ids_removeVehicleFlow [of w k now c u w']
  show ?thesis by simp
qed

theorem C5_session_invariant_witness:
  "reachable (boot None)
   \<and> list_all session_inv (slots (STATE (boot None)))
   \<and> slots STATE0 = [] \<and> list_all session_inv (slots (initSlots STATE0))
   \<and> list_all session_inv (slots (STATE lot3))
   \<and> (\<exists>u w'. removeVehicleFlow lot3 2 5000 True = Inr (u, w')
         \<and> list_all session_inv (slots (STATE w'))
         \<and> map id_s (slots (STATE w')) = [1, 2, 3])
   \<and> list_all session_inv (slots (STATE (snd (entrySubmit lot3 ''TN 01 A 123'' ''Asha'' ''car'' 5000))))"
proof -
  have b: "reachable (boot None)" by (rule reachable.first_visit)
  have e: "slots STATE0 = []" by (simp add: STATE0_def)
  have l: "list_all session_inv (slots (STATE lot3))"
    by (simp add: lot3_def session_inv_def)
  have i: "map id_s (slots (STATE lot3)) = [1, 2, 3]" by (simp add: lot3_def)
  have "\<exists>u w'. removeVehicleFlow lot3 2 5000 True = Inr (u, w')"
    by (simp add: removeVehicleFlow_def lot3_def Let_def)
  then obtain u w' where rm: "removeVehicleFlow lot3 2 5000 True = Inr (u, w')" by blast
  from C5_session_invariant [of "boot None"] b
  have 1: "list_all session_inv (slots (STATE (boot None)))" by blast
  note inst = C5_session_invariant [of lot3 STATE0 "''TN 01 A 123''" "''Asha''" "''car''" 5000 2 True u w']
  from inst e have 2: "list_all session_inv (slots (initSlots STATE0))" by blast
  from inst l rm have 3: "list_all session_inv (slots (STATE w'))"
    and "map id_s (slots (STATE w')) = map id_s (slots (STATE lot3))" by blast+
  then have 5: "map id_s (slots (STATE w')) = [1, 2, 3]" by (simp add: i)
  from inst l
  have 4: "list_all session_inv (slots (STATE (snd (entrySubmit lot3 ''TN 01 A 123'' ''Asha'' ''car'' 5000))))"
    by blast
  have x: "\<exists>u w'. removeVehicleFlow lot3 2 5000 True = Inr (u, w')
         \<and> list_all session_inv (slots (STATE w'))
         \<and> map id_s (slots (STATE w')) = [1, 2, 3]"
    by (intro exI [of _ u] exI [of _ w'] conjI) (rule rm 3 5)+
  show ?thesis by (intro conjI) (rule b 1 e 2 l x 4)+
qed

section \<open>Saving and loading\<close>

text \<open>
  C6. Loading what \<open>save\<close> wrote, into any state, gives back the saved state with its timers
  emptied: the same slots (so the same count, occupancy and categories), the same ledger in
  the same order, the same configuration and theme. The snapshot that \<open>save\<close> writes has no
  timers field.
\<close>

theorem C6_round_trip:
  "STATE (load ((save w)\<lparr>STATE := st'\<rparr>)) = (STATE w)\<lparr>timers := []\<rparr>
   \<and> slots (STATE (load ((save w)\<lparr>STATE := st'\<rparr>))) = slots (STATE w)
   \<and> history (STATE (load ((save w)\<lparr>STATE := st'\<rparr>))) = history (STATE w)
   \<and> timers (STATE (load ((save w)\<lparr>STATE := st'\<rparr>))) = []
   \<and> localStorage (save w) = Some (JsonText (JObject (persist (STATE w))))
   \<and> p_timers (persist (STATE w)) = None"
  by (simp add: load_save persist_def)

section \<open>Loading missing or malformed data\<close>

text \<open>
  C7. When nothing is stored, or the stored text is empty or does not parse, or parses to
  \<open>null\<close> or to something that is not an object, or to an object without a \<open>slots\<close> or without
  a \<open>history\<close> field, \<open>load\<close> returns with the state untouched (an exception raised inside it
  never leaves it), and start-up then initialises the registry afresh: 48 free slots and an
  empty ledger.
\<close>

theorem C7_load_fallback:
  assumes "item = None \<or> item = Some EmptyText \<or> item = Some BadText
           \<or> item = Some (JsonText JNull) \<or> item = Some (JsonText JOther)
           \<or> (\<exists>d. item = Some (JsonText (JObject d)) \<and> (p_slots d = None \<or> p_history d = None))"
  shows "load \<lparr> STATE = st, localStorage = item \<rparr> = \<lparr> STATE = st, localStorage = item \<rparr>
         \<and> STATE (boot item) = initSlots STATE0
         \<and> slots (STATE (boot item)) = map (newSlot (config STATE0)) [1..48]
         \<and> list_all (\<lambda>s. \<not> occupied s \<and> vehicle s = None \<and> entryTime s = None)
              (slots (STATE (boot item)))
         \<and> history (STATE (boot item)) = []"
proof -
  have keep: "load \<lparr> STATE = s, localStorage = item \<rparr> = \<lparr> STATE = s, localStorage = item \<rparr>" for s
    using assms by (rule load_keeps)
  have bt: "STATE (boot item) = initSlots STATE0"
    by (simp add: boot_def keep)
  have sl: "slots (initSlots STATE0) = map (newSlot (config STATE0)) [1..48]"
    using slots_initSlots [of STATE0] by (simp add: STATE0_def)
  have fr: "list_all (\<lambda>s. \<not> occupied s \<and> vehicle s = None \<and> entryTime s = None)
              (map (newSlot (config STATE0)) [1..48])"
    by (simp add: list_all_iff newSlot_def)
  have hi: "history (initSlots STATE0) = []"
    by (simp add: initSlots_other STATE0_def)
  from keep [of st] bt sl fr hi show ?thesis by simp
qed

theorem C7_load_fallback_witness:
  "load \<lparr> STATE = STATE lot3, localStorage = Some BadText \<rparr>
     = \<lparr> STATE = STATE lot3, localStorage = Some BadText \<rparr>
   \<and> load_try \<lparr> STATE = STATE lot3, localStorage = Some BadText \<rparr> = Inl SyntaxError
   \<and> length (slots (STATE (boot (Some BadText)))) = 48
   \<and> history (STATE (boot (Some BadText))) = []
   \<and> p_history (no_fields\<lparr>p_slots := Some (slots (STATE lot3))\<rparr>) = None
   \<and> load \<lparr> STATE = STATE0, localStorage =
         Some (JsonText (JObject (no_fields\<lparr>p_slots := Some (slots (STATE lot3))\<rparr>))) \<rparr>
     = \<lparr> STATE = STATE0, localStorage =
         Some (JsonText (JObject (no_fields\<lparr>p_slots := Some (slots (STATE lot3))\<rparr>))) \<rparr>
   \<and> length (slots (STATE (boot None))) = 48"
proof -
  let ?d = "no_fields\<lparr>p_slots := Some (slots (STATE lot3))\<rparr>"
  have h: "p_history ?d = None" by (simp add: no_fields_def)
  have t: "load_try \<lparr> STATE = STATE lot3, localStorage = Some BadText \<rparr> = Inl SyntaxError"
    by (simp add: load_try_def getItem_or_braces_def)
  from C7_load_fallback [of "Some BadText" "STATE lot3"]
  have 1: "load \<lparr> STATE = STATE lot3, localStorage = Some BadText \<rparr>
     = \<lparr> STATE = STATE lot3, localStorage = Some BadText \<rparr>"
    and "slots (STATE (boot (Some BadText))) = map (newSlot (config STATE0)) [1..48]"
    and 2: "history (STATE (boot (Some BadText))) = []"
    by blast+
  then have 3: "length (slots (STATE (boot (Some BadText)))) = 48" by simp
  from C7_load_fallback [of "Some (JsonText (JObject ?d))" STATE0] h
  have 4: "load \<lparr> STATE = STATE0, localStorage = Some (JsonText (JObject ?d)) \<rparr>
     = \<lparr> STATE = STATE0, localStorage = Some (JsonText (JObject ?d)) \<rparr>"
    by blast
  from C7_load_fallback [of None STATE0]
  have "slots (STATE (boot None)) = map (newSlot (config STATE0)) [1..48]" by blast
  then have 5: "length (slots (STATE (boot None))) = 48" by simp
  from 1 t 3 2 h 4 5 show ?thesis by blast
qed

section \<open>Revenue by day\<close>

text \<open>
  C8. \<open>revenueByDay\<close> ends each day's window 86400000 ms after local midnight, whereas the
  count of today's vehicles in \<open>renderAnalytics\<close> ends the day at the local time
  23:59:59.999. On a day of twenty-five hours the last hour belongs to no bucket. With New
  York's calendar on 3 November 2025 and a ledger holding one removal at 23:30 local time on
  2 November (fee 20), \<open>revenueByDay(2)\<close> returns two buckets of value 0, although the fees
  of the records leaving on 2 November, and in the two-day window, amount to 20.
\<close>

theorem C8_revenueByDay_dst:
  "revenueByDay dayStart_NY dayLabel_NY ledger_NY 2
     = [\<lparr> label = ''11/2'', value_b = 0 \<rparr>, \<lparr> label = ''11/3'', value_b = 0 \<rparr>]
   \<and> feesBetween ledger_NY (dayStart_NY 1) (dayStart_NY 0 - 1) = 20
   \<and> feesBetween ledger_NY (dayStart_NY 1) (dayStart_NY 0 + 86400000 - 1) = 20
   \<and> dayStart_NY 0 - dayStart_NY 1 = 25 * 3600000"
proof -
  have up: "rev [0..(1::int)] = [1, 0]" by (simp add: upto_rec1)
  have "revenueByDay dayStart_NY dayLabel_NY ledger_NY 2
     = [\<lparr> label = ''11/2'', value_b = 0 \<rparr>, \<lparr> label = ''11/3'', value_b = 0 \<rparr>]"
    by (simp add: revenueByDay_eq up feesBetween_def dayStart_NY_def dayLabel_NY_def ledger_NY_def)
  moreover have "feesBetween ledger_NY (dayStart_NY 1) (dayStart_NY 0 - 1) = 20"
    by (simp add: feesBetween_def dayStart_NY_def ledger_NY_def)
  moreover have "feesBetween ledger_NY (dayStart_NY 1) (dayStart_NY 0 + 86400000 - 1) = 20"
    by (simp add: feesBetween_def dayStart_NY_def ledger_NY_def)
  moreover have "dayStart_NY 0 - dayStart_NY 1 = 25 * 3600000"
    by (simp add: dayStart_NY_def)
  ultimately show ?thesis by blast
qed

end
